theory Spec2Isabelle
  imports Complex_Main
begin

section \<open>JavaScript numbers\<close>

text \<open>
  The coordinates handled by \<^verbatim>\<open>door.ts\<close> are JavaScript numbers. A number is modelled
  as a finite value, one of the two infinities, or NaN. Finite values are exact reals:
  rounding, overflow of finite results and the sign of zero are not modelled. The
  operations below follow the IEEE rules of the language for the non-finite operands,
  in particular \<open>0 / 0 = NaN\<close>, and every comparison with NaN is false. The only division
  in the sources divides by a sum of two squares, which is never the negative zero.
\<close>

datatype number = Fin real | PosInf | NegInf | NaN

instantiation number :: plus
begin

fun plus_number :: "number \<Rightarrow> number \<Rightarrow> number" where
  "Fin a + Fin b = Fin (a + b)"
| "NaN + _ = NaN"
| "_ + NaN = NaN"
| "PosInf + NegInf = NaN"
| "NegInf + PosInf = NaN"
| "PosInf + _ = PosInf"
| "_ + PosInf = PosInf"
| "NegInf + _ = NegInf"
| "_ + NegInf = NegInf"

instance ..

end

instantiation number :: minus
begin

fun minus_number :: "number \<Rightarrow> number \<Rightarrow> number" where
  "Fin a - Fin b = Fin (a - b)"
| "NaN - _ = NaN"
| "_ - NaN = NaN"
| "PosInf - PosInf = NaN"
| "NegInf - NegInf = NaN"
| "PosInf - _ = PosInf"
| "_ - NegInf = PosInf"
| "NegInf - _ = NegInf"
| "_ - PosInf = NegInf"

instance ..

end

instantiation number :: times
begin

fun times_number :: "number \<Rightarrow> number \<Rightarrow> number" where
  "Fin a * Fin b = Fin (a * b)"
| "NaN * _ = NaN"
| "_ * NaN = NaN"
| "PosInf * Fin b = (if b = 0 then NaN else if 0 < b then PosInf else NegInf)"
| "NegInf * Fin b = (if b = 0 then NaN else if 0 < b then NegInf else PosInf)"
| "Fin a * PosInf = (if a = 0 then NaN else if 0 < a then PosInf else NegInf)"
| "Fin a * NegInf = (if a = 0 then NaN else if 0 < a then NegInf else PosInf)"
| "PosInf * PosInf = PosInf"
| "NegInf * NegInf = PosInf"
| "PosInf * NegInf = NegInf"
| "NegInf * PosInf = NegInf"

instance ..

end

instantiation number :: inverse
begin

fun divide_number :: "number \<Rightarrow> number \<Rightarrow> number" where
  "divide_number (Fin a) (Fin b) =
     (if b = 0 then (if a = 0 then NaN else if 0 < a then PosInf else NegInf)
      else Fin (a / b))"
| "divide_number NaN _ = NaN"
| "divide_number _ NaN = NaN"
| "divide_number (Fin a) _ = Fin 0"
| "divide_number PosInf (Fin b) = (if b < 0 then NegInf else PosInf)"
| "divide_number NegInf (Fin b) = (if b < 0 then PosInf else NegInf)"
| "divide_number _ _ = NaN"

definition inverse_number :: "number \<Rightarrow> number" where
  "inverse_number a = divide (Fin 1) a"

instance ..

end

instantiation number :: ord
begin

fun less_number :: "number \<Rightarrow> number \<Rightarrow> bool" where
  "Fin a < Fin b \<longleftrightarrow> a < b"
| "NaN < _ \<longleftrightarrow> False"
| "_ < NaN \<longleftrightarrow> False"
| "_ < NegInf \<longleftrightarrow> False"
| "PosInf < _ \<longleftrightarrow> False"
| "NegInf < _ \<longleftrightarrow> True"
| "_ < PosInf \<longleftrightarrow> True"

fun less_eq_number :: "number \<Rightarrow> number \<Rightarrow> bool" where
  "Fin a \<le> Fin b \<longleftrightarrow> a \<le> b"
| "NaN \<le> _ \<longleftrightarrow> False"
| "_ \<le> NaN \<longleftrightarrow> False"
| "NegInf \<le> _ \<longleftrightarrow> True"
| "_ \<le> PosInf \<longleftrightarrow> True"
| "_ \<le> NegInf \<longleftrightarrow> False"
| "PosInf \<le> _ \<longleftrightarrow> False"

instance ..

end

text \<open>\<^verbatim>\<open>Math.max\<close> and \<^verbatim>\<open>Math.min\<close> of two arguments: NaN as soon as one argument is NaN.\<close>

fun Math_max :: "number \<Rightarrow> number \<Rightarrow> number" where
  "Math_max NaN _ = NaN"
| "Math_max _ NaN = NaN"
| "Math_max a b = (if a < b then b else a)"

fun Math_min :: "number \<Rightarrow> number \<Rightarrow> number" where
  "Math_min NaN _ = NaN"
| "Math_min _ NaN = NaN"
| "Math_min a b = (if b < a then b else a)"

fun Math_sqrt :: "number \<Rightarrow> number" where
  "Math_sqrt (Fin a) = (if a < 0 then NaN else Fin (sqrt a))"
| "Math_sqrt PosInf = PosInf"
| "Math_sqrt NegInf = NaN"
| "Math_sqrt NaN = NaN"

text \<open>\<^verbatim>\<open>Math.pow(x, 2)\<close>, the only exponent the sources use.\<close>

fun Math_pow2 :: "number \<Rightarrow> number" where
  "Math_pow2 (Fin a) = Fin (a\<^sup>2)"
| "Math_pow2 PosInf = PosInf"
| "Math_pow2 NegInf = PosInf"
| "Math_pow2 NaN = NaN"

section \<open>Geometry primitives of the door tool\<close>

text \<open>\<^verbatim>\<open>fabric.Point\<close>: a pair of coordinates.\<close>

datatype point = Point (pt_x: number) (pt_y: number)

text \<open>The object returned by \<^verbatim>\<open>getPointToLineDistance\<close>: \<^verbatim>\<open>{ distance, point, t }\<close>.\<close>

record pld_result =
  res_distance :: number
  res_point :: point
  res_t :: number

definition getPointToLineDistance :: "point \<Rightarrow> point \<Rightarrow> point \<Rightarrow> pld_result" where
  "getPointToLineDistance pnt lineStart lineEnd =
     (let lineVector = Point (pt_x lineEnd - pt_x lineStart) (pt_y lineEnd - pt_y lineStart);
          pointVector = Point (pt_x pnt - pt_x lineStart) (pt_y pnt - pt_y lineStart);
          lineLengthSq = pt_x lineVector * pt_x lineVector + pt_y lineVector * pt_y lineVector;
          t = Math_max (Fin 0) (Math_min (Fin 1)
                ((pt_x pointVector * pt_x lineVector + pt_y pointVector * pt_y lineVector)
                   / lineLengthSq));
          projectionPoint = Point (pt_x lineStart + t * pt_x lineVector)
                                  (pt_y lineStart + t * pt_y lineVector);
          distance = Math_sqrt (Math_pow2 (pt_x pnt - pt_x projectionPoint)
                                + Math_pow2 (pt_y pnt - pt_y projectionPoint))
      in \<lparr>res_distance = distance, res_point = projectionPoint, res_t = t\<rparr>)"

section \<open>Array helpers of the language\<close>

text \<open>\<^verbatim>\<open>Array.prototype.indexOf\<close>: the first index holding the value, or \<open>-1\<close>.\<close>

fun js_indexOf :: "'a list \<Rightarrow> 'a \<Rightarrow> int" where
  "js_indexOf [] v = - 1"
| "js_indexOf (a # as) v =
     (if a = v then 0
      else (let r = js_indexOf as v in if r = - 1 then - 1 else r + 1))"

text \<open>
  \<^verbatim>\<open>Array.prototype.splice(start, deleteCount, ...items)\<close>, returning the array after the
  mutation. A negative \<open>start\<close> counts from the end (and is clamped at 0), a \<open>start\<close>
  beyond the end is clamped to the length.
\<close>

definition js_splice :: "'a list \<Rightarrow> int \<Rightarrow> nat \<Rightarrow> 'a list \<Rightarrow> 'a list" where
  "js_splice xs start deleteCount items =
     (let len = int (length xs);
          s = nat (if start < 0 then max (len + start) 0 else min start len);
          d = min deleteCount (length xs - s)
      in take s xs @ items @ drop (s + d) xs)"

section \<open>The polygon and its objects\<close>

text \<open>
  Objects are identified by their address in a store, so that \<^verbatim>\<open>===\<close> is equality of
  addresses. \<^verbatim>\<open>PolygonVertex\<close> is a circle with the list of its incident edges;
  \<^verbatim>\<open>PolygonEdge\<close> is a line \<open>(x1, y1, x2, y2)\<close> between a source and a target vertex,
  linked to its neighbours on the boundary; a door is a path through a list of points.
  Only the fields that \<^verbatim>\<open>CustomPolygon.ts\<close> and \<^verbatim>\<open>door.ts\<close> read or write are kept; the
  constant rendering flags, the canvas association and the event handlers are left out.
  The fields \<open>left\<close>, \<open>top\<close> and \<open>edges\<close> of a vertex and \<open>path\<close> of a door carry a prefix
  here, the plain names being taken; \<open>in_group\<close> records that \<open>door.group\<close> is the polygon.
\<close>

record vertex_obj =
  v_left :: number
  v_top :: number
  v_edges :: "nat list"

record edge_obj =
  x1 :: number
  y1 :: number
  x2 :: number
  y2 :: number
  source :: nat
  target :: nat
  nextEdge :: "nat option"
  prevEdge :: "nat option"
  stroke :: string
  strokeWidth :: number

record door_obj =
  d_path :: "point list"
  in_group :: bool

datatype obj = VertexObj nat | EdgeObj nat | DoorObj nat

text \<open>
  \<^verbatim>\<open>CustomPolygon\<close>: the three arrays \<open>vertices\<close>, \<open>edges\<close>, \<open>doors\<close>, the child-object
  list \<open>_objects\<close> of the group, the three stores, and the next unused address, from
  which \<^verbatim>\<open>new\<close> takes its objects.
\<close>

record polygon =
  vertices :: "nat list"
  edges :: "nat list"
  doors :: "nat list"
  objects :: "obj list"
  vheap :: "nat \<Rightarrow> vertex_obj"
  eheap :: "nat \<Rightarrow> edge_obj"
  dheap :: "nat \<Rightarrow> door_obj"
  fresh :: nat

section \<open>Edge snapping\<close>

definition THRESHOLD :: number where
  "THRESHOLD = Fin 10"

text \<open>\<^verbatim>\<open>new fabric.Point(edge.x1, edge.y1)\<close> and \<^verbatim>\<open>new fabric.Point(edge.x2, edge.y2)\<close>.\<close>

definition edge_p1 :: "edge_obj \<Rightarrow> point" where
  "edge_p1 edge = Point (x1 edge) (y1 edge)"

definition edge_p2 :: "edge_obj \<Rightarrow> point" where
  "edge_p2 edge = Point (x2 edge) (y2 edge)"

text \<open>
  The body of the \<^verbatim>\<open>forEach\<close> of \<^verbatim>\<open>findClosestEdgePoint\<close>, on the three variables
  \<open>closestPoint\<close>, \<open>minDistance\<close>, \<open>closestEdge\<close>.
\<close>

fun closest_loop ::
  "(nat \<Rightarrow> edge_obj) \<Rightarrow> point \<Rightarrow> nat list
     \<Rightarrow> point option \<times> number \<times> nat option \<Rightarrow> point option \<times> number \<times> nat option" where
  "closest_loop h localPointer [] st = st"
| "closest_loop h localPointer (edge # rest) (closestPoint, minDistance, closestEdge) =
     (let result = getPointToLineDistance localPointer (edge_p1 (h edge)) (edge_p2 (h edge))
      in closest_loop h localPointer rest
           (if res_distance result < THRESHOLD \<and> Fin 0 \<le> res_t result \<and> res_t result \<le> Fin 1
            then (if res_distance result < minDistance
                  then (Some (res_point result), res_distance result, Some edge)
                  else (closestPoint, minDistance, closestEdge))
            else (closestPoint, minDistance, closestEdge)))"

text \<open>
  \<^verbatim>\<open>toLocalPoint\<close> applies the inverse of the polygon's transform matrix, which the
  canvas library computes; it is a parameter here.
\<close>

definition findClosestEdgePoint ::
  "(point \<Rightarrow> point) \<Rightarrow> polygon \<Rightarrow> point \<Rightarrow> (point \<times> nat) option" where
  "findClosestEdgePoint toLocalPoint object globalPointer =
     (let localPointer = toLocalPoint globalPointer
      in case closest_loop (eheap object) localPointer (edges object) (None, PosInf, None) of
           (Some closestPoint, _, Some closestEdge) \<Rightarrow> Some (closestPoint, closestEdge)
         | _ \<Rightarrow> None)"

section \<open>Door path routing\<close>

text \<open>
  The \<^verbatim>\<open>forEach\<close> of \<^verbatim>\<open>findPathBetweenPoints\<close>, on the four variables \<open>startEdgeIndex\<close>,
  \<open>localStart\<close>, \<open>endEdgeIndex\<close>, \<open>localEnd\<close>; \<open>i\<close> is the index of the edge at hand.
\<close>

fun resnap_loop ::
  "(nat \<Rightarrow> edge_obj) \<Rightarrow> nat list \<Rightarrow> nat
     \<Rightarrow> int \<times> point \<times> int \<times> point \<Rightarrow> int \<times> point \<times> int \<times> point" where
  "resnap_loop h [] i st = st"
| "resnap_loop h (edge # rest) i (startEdgeIndex, localStart, endEdgeIndex, localEnd) =
     (let p1 = edge_p1 (h edge);
          p2 = edge_p2 (h edge);
          startResult = getPointToLineDistance localStart p1 p2;
          endResult = getPointToLineDistance localEnd p1 p2;
          (startEdgeIndex', localStart') =
            (if res_distance startResult < Fin 5 \<and> Fin 0 \<le> res_t startResult
                  \<and> res_t startResult \<le> Fin 1
             then (int i, res_point startResult) else (startEdgeIndex, localStart));
          (endEdgeIndex', localEnd') =
            (if res_distance endResult < Fin 5 \<and> Fin 0 \<le> res_t endResult
                  \<and> res_t endResult \<le> Fin 1
             then (int i, res_point endResult) else (endEdgeIndex, localEnd))
      in resnap_loop h rest (Suc i) (startEdgeIndex', localStart', endEdgeIndex', localEnd'))"

text \<open>
  The \<^verbatim>\<open>while\<close> loop of \<^verbatim>\<open>findPathBetweenPoints\<close>. It has no bound of its own, so the
  model is a partial function: \<open>None\<close> stands for a loop that does not return. With no
  edge at all, \<open>(currentIndex + 1) % 0\<close> is NaN, \<open>object.edges[NaN]\<close> is undefined and
  reading its \<open>x1\<close> throws, which is \<open>None\<close> as well. \<open>currentIndex + 1\<close> is never
  negative, so \<open>%\<close> is \<open>mod\<close>.
\<close>

partial_function (option) walk_edges ::
  "(nat \<Rightarrow> edge_obj) \<Rightarrow> nat list \<Rightarrow> int \<Rightarrow> int \<Rightarrow> point list \<Rightarrow> point list option" where
  "walk_edges h es currentIndex endEdgeIndex path =
     (if currentIndex \<noteq> endEdgeIndex
      then (if es = [] then None
            else (let currentIndex' = (currentIndex + 1) mod int (length es);
                      edge = h (es ! nat currentIndex')
                  in walk_edges h es currentIndex' endEdgeIndex
                       (path @ [Point (x1 edge) (y1 edge)])))
      else Some path)"

definition findPathBetweenPoints :: "polygon \<Rightarrow> point \<Rightarrow> point \<Rightarrow> point list option" where
  "findPathBetweenPoints object localStart0 localEnd0 =
     (case resnap_loop (eheap object) (edges object) 0 (- 1, localStart0, - 1, localEnd0) of
        (startEdgeIndex, localStart, endEdgeIndex, localEnd) \<Rightarrow>
          if startEdgeIndex = - 1 \<or> endEdgeIndex = - 1 then Some []
          else if startEdgeIndex = endEdgeIndex then Some [localStart, localEnd]
          else (case walk_edges (eheap object) (edges object) startEdgeIndex endEdgeIndex
                       [localStart] of
                  None \<Rightarrow> None
                | Some path \<Rightarrow> Some (path @ [localEnd])))"

section \<open>Polygon topology and door management\<close>

text \<open>
  The classes \<^verbatim>\<open>PolygonVertex\<close> and \<^verbatim>\<open>PolygonEdge\<close> are imported by
  \<^verbatim>\<open>CustomPolygon.ts\<close> but are not among the sources. What the model needs of them is
  the point of a vertex at which its edges end; it is the parameter \<open>anchor\<close> below.
\<close>

text \<open>
  Modelled from the spec: the constructor of \<^verbatim>\<open>PolygonVertex\<close>, which is missing. A
  vertex is a point with a list of incident edges; a new vertex has no incident edge.
\<close>

definition new_PolygonVertex :: "number \<Rightarrow> number \<Rightarrow> vertex_obj" where
  "new_PolygonVertex l t = \<lparr>v_left = l, v_top = t, v_edges = []\<rparr>"

text \<open>
  Modelled from the spec: the constructor of \<^verbatim>\<open>PolygonEdge\<close>, which is missing. An edge
  is an ordered pair of a source and a target vertex whose end points are those two
  vertices; a new edge is not linked to any neighbour yet.
\<close>

definition new_PolygonEdge ::
  "(vertex_obj \<Rightarrow> point) \<Rightarrow> (nat \<Rightarrow> vertex_obj) \<Rightarrow> nat \<Rightarrow> nat \<Rightarrow> string \<Rightarrow> number \<Rightarrow> edge_obj" where
  "new_PolygonEdge anchor vh src tgt strk width =
     \<lparr>x1 = pt_x (anchor (vh src)), y1 = pt_y (anchor (vh src)),
      x2 = pt_x (anchor (vh tgt)), y2 = pt_y (anchor (vh tgt)),
      source = src, target = tgt, nextEdge = None, prevEdge = None,
      stroke = strk, strokeWidth = width\<rparr>"

text \<open>
  Modelled from the spec: the method \<^verbatim>\<open>updatePosition\<close> of \<^verbatim>\<open>PolygonEdge\<close>, which is
  missing. It moves the end points of the edge to its two vertices.
\<close>

definition updatePosition ::
  "(vertex_obj \<Rightarrow> point) \<Rightarrow> (nat \<Rightarrow> vertex_obj) \<Rightarrow> (nat \<Rightarrow> edge_obj) \<Rightarrow> nat \<Rightarrow> (nat \<Rightarrow> edge_obj)" where
  "updatePosition anchor vh eh e =
     eh(e := (eh e)\<lparr>x1 := pt_x (anchor (vh (source (eh e)))),
                    y1 := pt_y (anchor (vh (source (eh e)))),
                    x2 := pt_x (anchor (vh (target (eh e)))),
                    y2 := pt_y (anchor (vh (target (eh e))))\<rparr>)"

text \<open>
  \<^verbatim>\<open>initializeCoordinateSystem\<close>: for every vertex, every incident edge is repositioned.
  The calls of \<^verbatim>\<open>setCoords\<close> refresh the cached corners of the canvas library and
  change nothing in the model.
\<close>

definition initializeCoordinateSystem :: "(vertex_obj \<Rightarrow> point) \<Rightarrow> polygon \<Rightarrow> polygon" where
  "initializeCoordinateSystem anchor this =
     this\<lparr>eheap :=
       foldl (\<lambda>eh vertex. foldl (updatePosition anchor (vheap this)) eh (v_edges (vheap this vertex)))
         (eheap this) (vertices this)\<rparr>"

text \<open>
  \<^verbatim>\<open>updateObjects\<close> rebuilds the child-object list. \<^verbatim>\<open>updateDoors\<close>, called last, resets
  the scale, angle and flip of every door, which the model does not hold.
\<close>

definition updateObjects :: "(vertex_obj \<Rightarrow> point) \<Rightarrow> polygon \<Rightarrow> polygon" where
  "updateObjects anchor this =
     initializeCoordinateSystem anchor
       (this\<lparr>objects := map VertexObj (vertices this) @ map EdgeObj (edges this)
                          @ map DoorObj (doors this)\<rparr>)"

definition addDoor :: "(vertex_obj \<Rightarrow> point) \<Rightarrow> polygon \<Rightarrow> nat \<Rightarrow> polygon" where
  "addDoor anchor this door =
     updateObjects anchor
       (this\<lparr>doors := doors this @ [door],
             objects := objects this @ [DoorObj door],
             dheap := (dheap this)(door := (dheap this door)\<lparr>in_group := True\<rparr>)\<rparr>)"

definition removeDoor :: "(vertex_obj \<Rightarrow> point) \<Rightarrow> polygon \<Rightarrow> nat \<Rightarrow> polygon" where
  "removeDoor anchor this door =
     (let doorIndex = js_indexOf (doors this) door
      in if doorIndex > - 1
         then (let this1 = this\<lparr>doors := js_splice (doors this) doorIndex 1 []\<rparr>;
                   objectIndex = js_indexOf (objects this1) (DoorObj door);
                   this2 = (if objectIndex > - 1
                            then this1\<lparr>objects := js_splice (objects this1) objectIndex 1 []\<rparr>
                            else this1)
               in updateObjects anchor this2)
         else this)"

text \<open>
  Step 6 of \<^verbatim>\<open>addVertexOnEdge\<close>: the links of the two new edges and of the two
  neighbours of the old edge. Every read of a field is made in the store as it is at
  that moment: \<open>edge.nextEdge\<close> is read after \<open>edge.prevEdge.nextEdge\<close> has been written,
  which matters when the edge is its own neighbour.
\<close>

definition link_new_edges :: "(nat \<Rightarrow> edge_obj) \<Rightarrow> nat \<Rightarrow> nat \<Rightarrow> nat \<Rightarrow> (nat \<Rightarrow> edge_obj)" where
  "link_new_edges eh2 edge newEdge1 newEdge2 =
     (let eh3 = eh2(newEdge1 := (eh2 newEdge1)\<lparr>nextEdge := Some newEdge2\<rparr>);
          eh4 = eh3(newEdge2 := (eh3 newEdge2)\<lparr>prevEdge := Some newEdge1\<rparr>);
          eh6 = (case prevEdge (eh4 edge) of
                   None \<Rightarrow> eh4
                 | Some pe \<Rightarrow>
                     (let eh5 = eh4(pe := (eh4 pe)\<lparr>nextEdge := Some newEdge1\<rparr>)
                      in eh5(newEdge1 := (eh5 newEdge1)\<lparr>prevEdge := prevEdge (eh5 edge)\<rparr>)))
      in (case nextEdge (eh6 edge) of
            None \<Rightarrow> eh6
          | Some ne \<Rightarrow>
              (let eh7 = eh6(ne := (eh6 ne)\<lparr>prevEdge := Some newEdge2\<rparr>)
               in eh7(newEdge2 := (eh7 newEdge2)\<lparr>nextEdge := nextEdge (eh7 edge)\<rparr>))))"

text \<open>
  \<^verbatim>\<open>addVertexOnEdge\<close>, step by step as in the source. The three new objects take the
  next three unused addresses.
\<close>

definition addVertexOnEdge ::
  "(vertex_obj \<Rightarrow> point) \<Rightarrow> polygon \<Rightarrow> nat \<Rightarrow> point \<Rightarrow> polygon" where
  "addVertexOnEdge anchor this edge pnt =
     (let newVertex = fresh this;
          newEdge1 = fresh this + 1;
          newEdge2 = fresh this + 2;
          src = source (eheap this edge);
          tgt = target (eheap this edge);
          \<comment> \<open>1. the new vertex\<close>
          vh1 = (vheap this)(newVertex :=
                  new_PolygonVertex (pt_x pnt - Fin 6) (pt_y pnt - Fin 6));
          \<comment> \<open>2. the two new edges, with the stroke of the old one\<close>
          eh1 = (eheap this)(newEdge1 :=
                  new_PolygonEdge anchor vh1 src newVertex
                    (stroke (eheap this edge)) (strokeWidth (eheap this edge)));
          eh2 = eh1(newEdge2 :=
                  new_PolygonEdge anchor vh1 newVertex tgt
                    (stroke (eh1 edge)) (strokeWidth (eh1 edge)));
          \<comment> \<open>4. the edges of the new vertex\<close>
          vh2 = vh1(newVertex := (vh1 newVertex)\<lparr>v_edges := [newEdge1, newEdge2]\<rparr>);
          \<comment> \<open>5. the edges of the two old vertices\<close>
          vh3 = vh2(src := (vh2 src)\<lparr>v_edges :=
                  map (\<lambda>e. if e = edge then newEdge1 else e) (v_edges (vh2 src))\<rparr>);
          vh4 = vh3(tgt := (vh3 tgt)\<lparr>v_edges :=
                  map (\<lambda>e. if e = edge then newEdge2 else e) (v_edges (vh3 tgt))\<rparr>);
          \<comment> \<open>6. the links\<close>
          eh8 = link_new_edges eh2 edge newEdge1 newEdge2;
          \<comment> \<open>7. the two arrays\<close>
          targetIndex = js_indexOf (vertices this) tgt;
          vertices' = js_splice (vertices this) targetIndex 0 [newVertex];
          edgeIndex = js_indexOf (edges this) edge;
          edges' = js_splice (edges this) edgeIndex 1 [newEdge1, newEdge2];
          \<comment> \<open>8. and 9. the child-object list\<close>
          objects' = filter (\<lambda>ob. ob \<noteq> EdgeObj edge) (objects this)
                       @ [VertexObj newVertex, EdgeObj newEdge1, EdgeObj newEdge2];
          this1 = this\<lparr>vertices := vertices', edges := edges', objects := objects',
                       vheap := vh4, eheap := eh8, fresh := fresh this + 3\<rparr>;
          \<comment> \<open>13. the coordinates\<close>
          this2 = initializeCoordinateSystem anchor this1;
          \<comment> \<open>14. the child-object list again\<close>
          this3 = this2\<lparr>objects := map VertexObj (vertices this2) @ map EdgeObj (edges this2)
                                     @ map DoorObj (doors this2)\<rparr>
      in \<comment> \<open>15.\<close> updateObjects anchor this3)"

section \<open>The two-click door gesture\<close>

text \<open>
  The variables of the closure of the door tool: \<open>isDrawing\<close>, \<open>startPoint\<close>,
  \<open>previewPath\<close>, \<open>previewPoint\<close>, and whether the two mouse handlers are registered on
  the canvas. The display list of the canvas itself belongs to the canvas library.
\<close>

record gesture =
  isDrawing :: bool
  startPoint :: "point option"
  previewPath :: "point list option"
  previewPoint :: "point option"
  listening :: bool

definition cleanup :: "gesture \<Rightarrow> gesture" where
  "cleanup g = g\<lparr>listening := False\<rparr>"

text \<open>
  \<^verbatim>\<open>handleMouseDown\<close> on the pointer position the canvas reports. \<open>None\<close> stands for a call
  that does not return normally: \<open>startPoint!\<close> is read as it is, and a null start point
  makes \<^verbatim>\<open>getPointToLineDistance\<close> throw on the first edge. The door is a new path
  through the routed points.
\<close>

definition handleMouseDown ::
  "(point \<Rightarrow> point) \<Rightarrow> (vertex_obj \<Rightarrow> point) \<Rightarrow> gesture \<times> polygon \<Rightarrow> point
     \<Rightarrow> (gesture \<times> polygon) option" where
  "handleMouseDown toLocalPoint anchor st pointer =
     (case st of (g, object) \<Rightarrow>
        (case findClosestEdgePoint toLocalPoint object pointer of
           None \<Rightarrow> Some (g, object)
         | Some (resultPoint, resultEdge) \<Rightarrow>
             if \<not> isDrawing g
             then Some (g\<lparr>isDrawing := True, startPoint := Some resultPoint\<rparr>, object)
             else (case startPoint g of
                     None \<Rightarrow> None
                   | Some sp \<Rightarrow>
                       (case findPathBetweenPoints object sp resultPoint of
                          None \<Rightarrow> None
                        | Some localPathPoints \<Rightarrow>
                            if length localPathPoints < 2
                            then Some (g\<lparr>isDrawing := False, startPoint := None\<rparr>, object)
                            else (let doorPath = fresh object;
                                      object1 = object\<lparr>dheap := (dheap object)(doorPath :=
                                                    \<lparr>d_path = localPathPoints, in_group = False\<rparr>),
                                                  fresh := Suc (fresh object)\<rparr>;
                                      object2 = addDoor anchor object1 doorPath
                                  in Some ((cleanup g)\<lparr>isDrawing := False, startPoint := None\<rparr>,
                                           object2))))))"

section \<open>Notions used to state the properties\<close>

text \<open>The result of measuring a point against the edge at an address.\<close>

definition edge_result :: "(nat \<Rightarrow> edge_obj) \<Rightarrow> point \<Rightarrow> nat \<Rightarrow> pld_result" where
  "edge_result h q e = getPointToLineDistance q (edge_p1 (h e)) (edge_p2 (h e))"

text \<open>The acceptance test both loops apply to a result, for a threshold.\<close>

definition accepted :: "number \<Rightarrow> pld_result \<Rightarrow> bool" where
  "accepted thr r \<longleftrightarrow> res_distance r < thr \<and> Fin 0 \<le> res_t r \<and> res_t r \<le> Fin 1"

text \<open>Following the \<open>nextEdge\<close> links \<open>k\<close> times from an edge.\<close>

fun follow :: "(nat \<Rightarrow> edge_obj) \<Rightarrow> nat \<Rightarrow> nat \<Rightarrow> nat option" where
  "follow h 0 e = Some e"
| "follow h (Suc k) e = (case nextEdge (h e) of None \<Rightarrow> None | Some e' \<Rightarrow> follow h k e')"

text \<open>
  The list \<open>cyc\<close> runs once around a closed boundary: its edges are distinct, each is
  linked forward to the next one of the list and the last one to the first, and each
  backward link is the inverse of the forward link.
\<close>

definition cycle_along :: "(nat \<Rightarrow> edge_obj) \<Rightarrow> nat list \<Rightarrow> bool" where
  "cycle_along h cyc \<longleftrightarrow>
     cyc \<noteq> [] \<and> distinct cyc \<and>
     (\<forall>k<length cyc.
        nextEdge (h (cyc ! k)) = Some (cyc ! ((k + 1) mod length cyc)) \<and>
        prevEdge (h (cyc ! ((k + 1) mod length cyc))) = Some (cyc ! k))"

text \<open>
  The edges of the polygon form one closed cycle, and \<open>cyc\<close> lists them in boundary
  order (the array \<open>edges\<close> may hold them in any order).
\<close>

definition closed_cycle :: "polygon \<Rightarrow> nat list \<Rightarrow> bool" where
  "closed_cycle this cyc \<longleftrightarrow>
     cycle_along (eheap this) cyc \<and> set cyc = set (edges this)
     \<and> length cyc = length (edges this)"

section \<open>Example polygons\<close>

text \<open>An anchor for the examples: the centre of a vertex circle of radius 6.\<close>

definition example_anchor :: "vertex_obj \<Rightarrow> point" where
  "example_anchor v = Point (v_left v + Fin 6) (v_top v + Fin 6)"

definition example_edge ::
  "real \<Rightarrow> real \<Rightarrow> real \<Rightarrow> real \<Rightarrow> nat \<Rightarrow> nat \<Rightarrow> nat \<Rightarrow> nat \<Rightarrow> edge_obj" where
  "example_edge a b c d src tgt nxt prv =
     \<lparr>x1 = Fin a, y1 = Fin b, x2 = Fin c, y2 = Fin d, source = src, target = tgt,
      nextEdge = Some nxt, prevEdge = Some prv, stroke = ''#000'', strokeWidth = Fin 2\<rparr>"

definition example_vertex :: "real \<Rightarrow> real \<Rightarrow> nat list \<Rightarrow> vertex_obj" where
  "example_vertex a b es = \<lparr>v_left = Fin (a - 6), v_top = Fin (b - 6), v_edges = es\<rparr>"

text \<open>
  A square of side 100: vertex \<open>i\<close> is the source of edge \<open>i\<close>, and the edges run
  \<open>(0,0) \<rightarrow> (100,0) \<rightarrow> (100,100) \<rightarrow> (0,100) \<rightarrow> (0,0)\<close>.
\<close>

definition square :: polygon where
  "square =
     \<lparr>vertices = [0, 1, 2, 3],
      edges = [0, 1, 2, 3],
      doors = [],
      objects = [VertexObj 0, VertexObj 1, VertexObj 2, VertexObj 3,
                 EdgeObj 0, EdgeObj 1, EdgeObj 2, EdgeObj 3],
      vheap = (\<lambda>_. example_vertex 0 0 [])
        (0 := example_vertex 0 0 [3, 0], 1 := example_vertex 100 0 [0, 1],
         2 := example_vertex 100 100 [1, 2], 3 := example_vertex 0 100 [2, 3]),
      eheap = (\<lambda>_. example_edge 0 0 0 0 0 0 0 0)
        (0 := example_edge 0 0 100 0 0 1 1 3, 1 := example_edge 100 0 100 100 1 2 2 0,
         2 := example_edge 100 100 0 100 2 3 3 1, 3 := example_edge 0 100 0 0 3 0 0 2),
      dheap = (\<lambda>_. \<lparr>d_path = [], in_group = False\<rparr>),
      fresh = 4\<rparr>"

text \<open>The square after vertex 2 has been dragged onto vertex 1: edge 1 has length zero.\<close>

definition pinched :: polygon where
  "pinched = square\<lparr>eheap := (eheap square)
     (1 := example_edge 100 0 100 0 1 2 2 0, 2 := example_edge 100 0 0 100 2 3 3 1)\<rparr>"

text \<open>The square with one door, at address 4, along its first edge.\<close>

definition square_with_door :: polygon where
  "square_with_door = square
     \<lparr>doors := [4],
      objects := objects square @ [DoorObj 4],
      dheap := (dheap square)(4 := \<lparr>d_path = [Point (Fin 20) (Fin 0), Point (Fin 70) (Fin 0)],
                                    in_group = True\<rparr>),
      fresh := 5\<rparr>"

text \<open>The square after a double click on edge 1 at the point \<open>(100, 50)\<close>.\<close>

definition split_square :: polygon where
  "split_square = addVertexOnEdge example_anchor square 1 (Point (Fin 100) (Fin 50))"

text \<open>
  The door gesture after a first click, with a start point that no edge of the square
  accepts any more (as after the boundary has been moved away from it).
\<close>

definition awaiting_second :: gesture where
  "awaiting_second =
     \<lparr>isDrawing = True, startPoint = Some (Point (Fin 50) (Fin 50)),
      previewPath = None, previewPoint = None, listening = True\<rparr>"

section \<open>Facts about numbers\<close>

lemma nlt_irrefl: "\<not> (a::number) < a"
  by (cases a) auto

lemma nlt_trans: "(a::number) < b \<Longrightarrow> b < c \<Longrightarrow> a < c"
  by (cases a; cases b; cases c) auto

lemma nlt_not_NaN: "(a::number) < b \<Longrightarrow> a \<noteq> NaN \<and> b \<noteq> NaN"
  by (cases a; cases b) auto

lemma nlt_between: "\<not> (x::number) < m \<Longrightarrow> e < m \<Longrightarrow> x \<noteq> NaN \<Longrightarrow> e < x"
  by (cases x; cases m; cases e) auto

lemma nlt_PosInf: "(a::number) < Fin c \<Longrightarrow> a < PosInf"
  by (cases a) auto

section \<open>The point-to-segment distance\<close>

text \<open>On a segment of length zero every number the function returns is NaN.\<close>

lemma gpld_same_t: "res_t (getPointToLineDistance p a a) = NaN"
proof -
  obtain ax ay where a: "a = Point ax ay" by (cases a)
  obtain qx qy where p: "p = Point qx qy" by (cases p)
  show ?thesis
    unfolding a p getPointToLineDistance_def Let_def
    by (cases ax; cases ay; cases qx; cases qy) simp_all
qed

lemma gpld_same_distance: "res_distance (getPointToLineDistance p a a) = NaN"
proof -
  obtain ax ay where a: "a = Point ax ay" by (cases a)
  obtain qx qy where p: "p = Point qx qy" by (cases p)
  show ?thesis
    unfolding a p getPointToLineDistance_def Let_def
    by (cases ax; cases ay; cases qx; cases qy) simp_all
qed

lemma gpld_same_point: "res_point (getPointToLineDistance p a a) = Point NaN NaN"
proof -
  obtain ax ay where a: "a = Point ax ay" by (cases a)
  obtain qx qy where p: "p = Point qx qy" by (cases p)
  show ?thesis
    unfolding a p getPointToLineDistance_def Let_def
    by (cases ax; cases ay; cases qx; cases qy) simp_all
qed

text \<open>
  C2. The claim is that the parameter lies in \<open>[0, 1]\<close> and the projection on the segment
  for every segment, and that on a segment of length zero the function returns the
  distance from \<open>P\<close> to the single point \<open>A\<close> and \<open>t = 0\<close>. The function has no branch for
  a segment of length zero: \<open>lineLengthSq\<close> is 0, the quotient is \<open>0 / 0 = NaN\<close>, and NaN
  goes through \<^verbatim>\<open>Math.min\<close> and \<^verbatim>\<open>Math.max\<close>. For \<open>P = (1, 1)\<close> and \<open>A = B = (0, 0)\<close> the
  parameter is NaN, not 0 and not in \<open>[0, 1]\<close>, the projection is \<open>(NaN, NaN)\<close>, and the
  distance is NaN, not \<open>sqrt 2\<close>; the same holds for edge 1 of the pinched square, whose
  two vertices coincide.
\<close>

theorem getPointToLineDistance_zero_length_NaN:
  "res_t (getPointToLineDistance (Point (Fin 1) (Fin 1)) (Point (Fin 0) (Fin 0))
            (Point (Fin 0) (Fin 0))) = NaN
   \<and> res_t (getPointToLineDistance (Point (Fin 1) (Fin 1)) (Point (Fin 0) (Fin 0))
            (Point (Fin 0) (Fin 0))) \<noteq> Fin 0
   \<and> \<not> Fin 0 \<le> res_t (getPointToLineDistance (Point (Fin 1) (Fin 1)) (Point (Fin 0) (Fin 0))
            (Point (Fin 0) (Fin 0)))
   \<and> res_point (getPointToLineDistance (Point (Fin 1) (Fin 1)) (Point (Fin 0) (Fin 0))
            (Point (Fin 0) (Fin 0))) = Point NaN NaN
   \<and> res_distance (getPointToLineDistance (Point (Fin 1) (Fin 1)) (Point (Fin 0) (Fin 0))
            (Point (Fin 0) (Fin 0))) = NaN
   \<and> res_distance (getPointToLineDistance (Point (Fin 1) (Fin 1)) (Point (Fin 0) (Fin 0))
            (Point (Fin 0) (Fin 0))) \<noteq> Fin (sqrt 2)
   \<and> res_t (edge_result (eheap pinched) (Point (Fin 100) (Fin 3)) 1) = NaN
   \<and> res_distance (edge_result (eheap pinched) (Point (Fin 100) (Fin 3)) 1) = NaN"
  by (simp add: getPointToLineDistance_def Let_def pinched_def square_def example_edge_def
      edge_result_def edge_p1_def edge_p2_def)

section \<open>Edge snapping: the closest accepted edge\<close>

lemmas square_eval = square_def example_edge_def edge_result_def edge_p1_def edge_p2_def
  getPointToLineDistance_def Let_def accepted_def THRESHOLD_def

lemma closest_loop_Cons:
  "closest_loop h q (e # es) (cp, m, ce) =
     closest_loop h q es
       (if accepted THRESHOLD (edge_result h q e) \<and> res_distance (edge_result h q e) < m
        then (Some (res_point (edge_result h q e)), res_distance (edge_result h q e), Some e)
        else (cp, m, ce))"
  by (simp add: accepted_def edge_result_def Let_def)

lemma closest_loop_unchanged:
  "\<forall>e\<in>set es. \<not> (accepted THRESHOLD (edge_result h q e) \<and> res_distance (edge_result h q e) < m)
   \<Longrightarrow> closest_loop h q es (cp, m, ce) = (cp, m, ce)"
  by (induction es) (auto simp add: closest_loop_Cons simp del: closest_loop.simps(2))

text \<open>
  The loop invariant, by induction on the edges still to visit: once some edge is
  accepted below the running minimum, the loop ends on an accepted edge \<open>e\<close> that is
  strictly closer than every accepted edge before it and not farther than any after it.
\<close>

lemma closest_loop_found:
  "\<exists>e\<in>set es. accepted THRESHOLD (edge_result h q e) \<and> res_distance (edge_result h q e) < m
   \<Longrightarrow> m \<noteq> NaN
   \<Longrightarrow> \<exists>pre e post. es = pre @ e # post
         \<and> accepted THRESHOLD (edge_result h q e)
         \<and> res_distance (edge_result h q e) < m
         \<and> (\<forall>x\<in>set pre. accepted THRESHOLD (edge_result h q x)
               \<longrightarrow> res_distance (edge_result h q e) < res_distance (edge_result h q x))
         \<and> (\<forall>x\<in>set post. accepted THRESHOLD (edge_result h q x)
               \<longrightarrow> \<not> res_distance (edge_result h q x) < res_distance (edge_result h q e))
         \<and> closest_loop h q es (cp, m, ce)
             = (Some (res_point (edge_result h q e)), res_distance (edge_result h q e), Some e)"
proof (induction es arbitrary: cp m ce)
  case Nil
  then show ?case by simp
next
  case (Cons a es)
  let ?d = "\<lambda>e. res_distance (edge_result h q e)"
  let ?ok = "\<lambda>e. accepted THRESHOLD (edge_result h q e)"
  show ?case
  proof (cases "?ok a \<and> ?d a < m")
    case True
    then have step: "closest_loop h q (a # es) (cp, m, ce)
        = closest_loop h q es (Some (res_point (edge_result h q a)), ?d a, Some a)"
      by (simp add: closest_loop_Cons del: closest_loop.simps(2))
    have da: "?d a \<noteq> NaN" using True nlt_not_NaN by blast
    show ?thesis
    proof (cases "\<exists>e\<in>set es. ?ok e \<and> ?d e < ?d a")
      case False
      then have "closest_loop h q es (Some (res_point (edge_result h q a)), ?d a, Some a)
          = (Some (res_point (edge_result h q a)), ?d a, Some a)"
        by (intro closest_loop_unchanged) blast
      with step True False show ?thesis
        by (intro exI[of _ "[]"] exI[of _ a] exI[of _ es]) auto
    next
      case ex: True
      from Cons.IH[OF ex da, of "Some (res_point (edge_result h q a))" "Some a"]
      obtain pre e post where
        es: "es = pre @ e # post" and oke: "?ok e" and lt: "?d e < ?d a"
        and pre: "\<forall>x\<in>set pre. ?ok x \<longrightarrow> ?d e < ?d x"
        and post: "\<forall>x\<in>set post. ?ok x \<longrightarrow> \<not> ?d x < ?d e"
        and res: "closest_loop h q es (Some (res_point (edge_result h q a)), ?d a, Some a)
             = (Some (res_point (edge_result h q e)), ?d e, Some e)"
        by blast
      have "?d e < m" using lt True nlt_trans by blast
      with es oke lt pre post res step show ?thesis
        by (intro exI[of _ "a # pre"] exI[of _ e] exI[of _ post]) auto
    qed
  next
    case False
    then have step: "closest_loop h q (a # es) (cp, m, ce) = closest_loop h q es (cp, m, ce)"
      by (auto simp add: closest_loop_Cons simp del: closest_loop.simps(2))
    from False Cons.prems(1) have ex: "\<exists>e\<in>set es. ?ok e \<and> ?d e < m" by auto
    from Cons.IH[OF ex Cons.prems(2), of cp ce]
    obtain pre e post where
      es: "es = pre @ e # post" and oke: "?ok e" and lt: "?d e < m"
      and pre: "\<forall>x\<in>set pre. ?ok x \<longrightarrow> ?d e < ?d x"
      and post: "\<forall>x\<in>set post. ?ok x \<longrightarrow> \<not> ?d x < ?d e"
      and res: "closest_loop h q es (cp, m, ce)
           = (Some (res_point (edge_result h q e)), ?d e, Some e)"
      by blast
    have "?ok a \<longrightarrow> ?d e < ?d a"
    proof
      assume oka: "?ok a"
      then have "\<not> ?d a < m" using False by blast
      moreover have "?d a \<noteq> NaN" using oka nlt_not_NaN unfolding accepted_def by blast
      ultimately show "?d e < ?d a" using lt nlt_between by blast
    qed
    with es oke lt pre post res step show ?thesis
      by (intro exI[of _ "a # pre"] exI[of _ e] exI[of _ post]) auto
  qed
qed

lemma accepted_lt_PosInf: "accepted THRESHOLD r \<Longrightarrow> res_distance r < PosInf"
  unfolding accepted_def THRESHOLD_def by (blast intro: nlt_PosInf)

lemma findClosestEdgePoint_None_iff:
  "findClosestEdgePoint toLocalPoint object g = None \<longleftrightarrow>
     (\<forall>e\<in>set (edges object). \<not> accepted THRESHOLD (edge_result (eheap object) (toLocalPoint g) e))"
proof (cases "\<exists>e\<in>set (edges object).
    accepted THRESHOLD (edge_result (eheap object) (toLocalPoint g) e)")
  case True
  then have "\<exists>e\<in>set (edges object).
      accepted THRESHOLD (edge_result (eheap object) (toLocalPoint g) e)
      \<and> res_distance (edge_result (eheap object) (toLocalPoint g) e) < PosInf"
    using accepted_lt_PosInf by blast
  from closest_loop_found[OF this, of None None] True show ?thesis
    by (auto simp: findClosestEdgePoint_def Let_def)
next
  case False
  then have "closest_loop (eheap object) (toLocalPoint g) (edges object) (None, PosInf, None)
      = (None, PosInf, None)"
    by (intro closest_loop_unchanged) blast
  with False show ?thesis by (simp add: findClosestEdgePoint_def Let_def)
qed

lemma findClosestEdgePoint_found:
  assumes "\<exists>e\<in>set (edges object).
      accepted THRESHOLD (edge_result (eheap object) (toLocalPoint g) e)"
  shows "\<exists>pre e post. edges object = pre @ e # post
           \<and> findClosestEdgePoint toLocalPoint object g
               = Some (res_point (edge_result (eheap object) (toLocalPoint g) e), e)
           \<and> accepted THRESHOLD (edge_result (eheap object) (toLocalPoint g) e)
           \<and> res_distance (edge_result (eheap object) (toLocalPoint g) e) < THRESHOLD
           \<and> (\<forall>x\<in>set pre. accepted THRESHOLD (edge_result (eheap object) (toLocalPoint g) x)
                 \<longrightarrow> res_distance (edge_result (eheap object) (toLocalPoint g) e)
                       < res_distance (edge_result (eheap object) (toLocalPoint g) x))
           \<and> (\<forall>x\<in>set post. accepted THRESHOLD (edge_result (eheap object) (toLocalPoint g) x)
                 \<longrightarrow> \<not> res_distance (edge_result (eheap object) (toLocalPoint g) x)
                         < res_distance (edge_result (eheap object) (toLocalPoint g) e))"
proof -
  let ?h = "eheap object" and ?q = "toLocalPoint g"
  from assms have "\<exists>e\<in>set (edges object). accepted THRESHOLD (edge_result ?h ?q e)
      \<and> res_distance (edge_result ?h ?q e) < PosInf"
    using accepted_lt_PosInf by blast
  from closest_loop_found[OF this, of None None]
  obtain pre e post where
    es: "edges object = pre @ e # post" and oke: "accepted THRESHOLD (edge_result ?h ?q e)"
    and pre: "\<forall>x\<in>set pre. accepted THRESHOLD (edge_result ?h ?q x)
        \<longrightarrow> res_distance (edge_result ?h ?q e) < res_distance (edge_result ?h ?q x)"
    and post: "\<forall>x\<in>set post. accepted THRESHOLD (edge_result ?h ?q x)
        \<longrightarrow> \<not> res_distance (edge_result ?h ?q x) < res_distance (edge_result ?h ?q e)"
    and res: "closest_loop ?h ?q (edges object) (None, PosInf, None)
        = (Some (res_point (edge_result ?h ?q e)), res_distance (edge_result ?h ?q e), Some e)"
    by blast
  have "findClosestEdgePoint toLocalPoint object g = Some (res_point (edge_result ?h ?q e), e)"
    using res by (simp add: findClosestEdgePoint_def Let_def)
  moreover have "res_distance (edge_result ?h ?q e) < THRESHOLD"
    using oke by (simp add: accepted_def)
  ultimately show ?thesis
    using es oke pre post by blast
qed

text \<open>
  C7 (amended). \<open>findClosestEdgePoint\<close> returns none exactly when no edge passes the
  acceptance test for the query point in the local frame (distance strictly below
  \<open>THRESHOLD = 10\<close> and \<open>0 \<le> t \<le> 1\<close>), so also at a distance of exactly \<open>THRESHOLD\<close>.
  Otherwise it returns an accepted edge with the projection on it, at a distance
  strictly below \<open>THRESHOLD\<close>; no accepted edge is closer, and every accepted edge that
  comes earlier in the edge sequence is strictly farther, so that on a tie the first
  edge is kept.
\<close>

theorem findClosestEdgePoint_closest:
  "(findClosestEdgePoint toLocalPoint object g = None \<longleftrightarrow>
      (\<forall>e\<in>set (edges object).
         \<not> accepted THRESHOLD (edge_result (eheap object) (toLocalPoint g) e)))
   \<and> ((\<exists>e\<in>set (edges object).
          accepted THRESHOLD (edge_result (eheap object) (toLocalPoint g) e)) \<longrightarrow>
        (\<exists>pre e post. edges object = pre @ e # post
           \<and> findClosestEdgePoint toLocalPoint object g
               = Some (res_point (edge_result (eheap object) (toLocalPoint g) e), e)
           \<and> accepted THRESHOLD (edge_result (eheap object) (toLocalPoint g) e)
           \<and> res_distance (edge_result (eheap object) (toLocalPoint g) e) < THRESHOLD
           \<and> (\<forall>x\<in>set pre. accepted THRESHOLD (edge_result (eheap object) (toLocalPoint g) x)
                 \<longrightarrow> res_distance (edge_result (eheap object) (toLocalPoint g) e)
                       < res_distance (edge_result (eheap object) (toLocalPoint g) x))
           \<and> (\<forall>x\<in>set post. accepted THRESHOLD (edge_result (eheap object) (toLocalPoint g) x)
                 \<longrightarrow> \<not> res_distance (edge_result (eheap object) (toLocalPoint g) x)
                         < res_distance (edge_result (eheap object) (toLocalPoint g) e))))"
  using findClosestEdgePoint_None_iff[of toLocalPoint object g]
    findClosestEdgePoint_found[of object toLocalPoint g]
  by blast

text \<open>
  The theorem at the square, for the point \<open>(50, 3)\<close> above the middle of edge 0: the
  edge is accepted, and the function returns a pair at a distance below \<open>THRESHOLD\<close>,
  which is edge 0 with the projection \<open>(50, 0)\<close>.
\<close>

theorem findClosestEdgePoint_closest_witness:
  "accepted THRESHOLD (edge_result (eheap square) (Point (Fin 50) (Fin 3)) 0)
   \<and> (\<exists>pt e. findClosestEdgePoint (\<lambda>p. p) square (Point (Fin 50) (Fin 3)) = Some (pt, e)
         \<and> res_distance (edge_result (eheap square) (Point (Fin 50) (Fin 3)) e) < THRESHOLD)
   \<and> findClosestEdgePoint (\<lambda>p. p) square (Point (Fin 50) (Fin 3))
       = Some (Point (Fin 50) (Fin 0), 0)"
proof -
  have acc: "accepted THRESHOLD (edge_result (eheap square) (Point (Fin 50) (Fin 3)) 0)"
    by (simp add: square_eval)
  have "0 \<in> set (edges square)" by (simp add: square_def)
  with acc have ex: "\<exists>e\<in>set (edges square).
      accepted THRESHOLD (edge_result (eheap square) ((\<lambda>p. p) (Point (Fin 50) (Fin 3))) e)"
    by blast
  from findClosestEdgePoint_closest[of "\<lambda>p. p" square "Point (Fin 50) (Fin 3)",
      THEN conjunct2, THEN mp, OF ex]
  have "\<exists>pt e. findClosestEdgePoint (\<lambda>p. p) square (Point (Fin 50) (Fin 3)) = Some (pt, e)
         \<and> res_distance (edge_result (eheap square) (Point (Fin 50) (Fin 3)) e) < THRESHOLD"
    by blast
  moreover have "findClosestEdgePoint (\<lambda>p. p) square (Point (Fin 50) (Fin 3))
       = Some (Point (Fin 50) (Fin 0), 0)"
    by (simp add: square_eval findClosestEdgePoint_def)
  ultimately show ?thesis using acc by blast
qed

text \<open>
  The claim as written fails at a distance of exactly \<open>THRESHOLD\<close>: the point \<open>(50, 10)\<close>
  is at distance 10 from edge 0 of the square, so it is not farther than \<open>THRESHOLD\<close>
  from every edge, and yet the function returns none.
\<close>

theorem findClosestEdgePoint_boundary_counterexample:
  "findClosestEdgePoint (\<lambda>p. p) square (Point (Fin 50) (Fin 10)) = None
   \<and> res_distance (edge_result (eheap square) (Point (Fin 50) (Fin 10)) 0) = Fin 10
   \<and> \<not> THRESHOLD < res_distance (edge_result (eheap square) (Point (Fin 50) (Fin 10)) 0)"
  by (simp add: square_eval findClosestEdgePoint_def)

text \<open>
  C10. \<open>findClosestEdgePoint\<close> is a total function, also when an edge of the polygon
  has length zero: for such an edge the parameter and the distance are NaN for every
  query point, the acceptance test fails, and the edge is never the one returned.
\<close>

theorem zero_length_edge_never_snapped:
  assumes "edge_p1 (eheap object e) = edge_p2 (eheap object e)"
  shows "res_t (edge_result (eheap object) q e) = NaN
       \<and> res_distance (edge_result (eheap object) q e) = NaN
       \<and> \<not> accepted THRESHOLD (edge_result (eheap object) q e)
       \<and> findClosestEdgePoint toLocalPoint object g \<noteq> Some (pt, e)
       \<and> (findClosestEdgePoint toLocalPoint object g = None
            \<or> (\<exists>pt' e'. findClosestEdgePoint toLocalPoint object g = Some (pt', e')
                          \<and> e' \<noteq> e))"
proof -
  have nan: "\<And>q. res_distance (edge_result (eheap object) q e) = NaN"
      "\<And>q. res_t (edge_result (eheap object) q e) = NaN"
    using assms by (simp_all add: edge_result_def gpld_same_distance gpld_same_t)
  have na: "\<And>q. \<not> accepted THRESHOLD (edge_result (eheap object) q e)"
    by (simp add: accepted_def nan)
  have "findClosestEdgePoint toLocalPoint object g \<noteq> Some (pt, e)" for pt
  proof
    assume eq: "findClosestEdgePoint toLocalPoint object g = Some (pt, e)"
    then have "\<exists>x\<in>set (edges object).
        accepted THRESHOLD (edge_result (eheap object) (toLocalPoint g) x)"
      using findClosestEdgePoint_None_iff[of toLocalPoint object g] by auto
    from findClosestEdgePoint_found[of object toLocalPoint g, OF this]
    obtain e' where "findClosestEdgePoint toLocalPoint object g
               = Some (res_point (edge_result (eheap object) (toLocalPoint g) e'), e')"
       "accepted THRESHOLD (edge_result (eheap object) (toLocalPoint g) e')"
      by blast
    with eq na show False by auto
  qed
  then have never: "\<And>pt. findClosestEdgePoint toLocalPoint object g \<noteq> Some (pt, e)" .
  have "findClosestEdgePoint toLocalPoint object g = None
      \<or> (\<exists>pt' e'. findClosestEdgePoint toLocalPoint object g = Some (pt', e') \<and> e' \<noteq> e)"
  proof (cases "findClosestEdgePoint toLocalPoint object g")
    case None
    then show ?thesis by simp
  next
    case (Some a)
    then show ?thesis using never by (cases a) auto
  qed
  with nan na never show ?thesis by blast
qed

text \<open>
  The theorem at the pinched square, whose edge 1 has length zero: a query at the
  pinched corner \<open>(100, 0)\<close> is answered with edge 0, not with edge 1.
\<close>

theorem zero_length_edge_never_snapped_witness:
  "edge_p1 (eheap pinched 1) = edge_p2 (eheap pinched 1)
   \<and> findClosestEdgePoint (\<lambda>p. p) pinched (Point (Fin 100) (Fin 0))
       \<noteq> Some (Point (Fin 100) (Fin 0), 1)
   \<and> \<not> accepted THRESHOLD (edge_result (eheap pinched) (Point (Fin 100) (Fin 0)) 1)
   \<and> findClosestEdgePoint (\<lambda>p. p) pinched (Point (Fin 100) (Fin 0))
       = Some (Point (Fin 100) (Fin 0), 0)"
proof -
  have zero: "edge_p1 (eheap pinched 1) = edge_p2 (eheap pinched 1)"
    by (simp add: pinched_def square_eval)
  have "findClosestEdgePoint (\<lambda>p. p) pinched (Point (Fin 100) (Fin 0))
       = Some (Point (Fin 100) (Fin 0), 0)"
    by (simp add: pinched_def square_eval findClosestEdgePoint_def)
  with zero zero_length_edge_never_snapped[OF zero,
      of "Point (Fin 100) (Fin 0)" "\<lambda>p. p" "Point (Fin 100) (Fin 0)" "Point (Fin 100) (Fin 0)"]
  show ?thesis by blast
qed

section \<open>Door path routing: the re-snap loop and the walk\<close>

lemmas path_eval = findPathBetweenPoints_def walk_edges.simps

lemma resnap_loop_Cons:
  "resnap_loop h (e # es) i (si, ls, ei, le) =
     resnap_loop h es (Suc i)
       (if accepted (Fin 5) (edge_result h ls e) then int i else si,
        if accepted (Fin 5) (edge_result h ls e) then res_point (edge_result h ls e) else ls,
        if accepted (Fin 5) (edge_result h le e) then int i else ei,
        if accepted (Fin 5) (edge_result h le e) then res_point (edge_result h le e) else le)"
  by (simp add: accepted_def edge_result_def Let_def)

lemma resnap_loop_start:
  "resnap_loop h es i (si, ls, ei, le) = (si', ls', ei', le') \<Longrightarrow>
     (si' = si \<and> ls' = ls) \<or>
     (\<exists>k<length es. si' = int (i + k) \<and>
        (\<exists>q. accepted (Fin 5) (edge_result h q (es ! k))
              \<and> ls' = res_point (edge_result h q (es ! k))))"
proof (induction es arbitrary: i si ls ei le)
  case Nil
  then show ?case by simp
next
  case (Cons a es)
  let ?A = "accepted (Fin 5) (edge_result h ls a)"
  from Cons.prems have run: "resnap_loop h es (Suc i)
       (if ?A then int i else si, if ?A then res_point (edge_result h ls a) else ls,
        if accepted (Fin 5) (edge_result h le a) then int i else ei,
        if accepted (Fin 5) (edge_result h le a) then res_point (edge_result h le a) else le)
       = (si', ls', ei', le')"
    by (simp only: resnap_loop_Cons)
  from Cons.IH[OF run] show ?case
  proof
    assume same: "si' = (if ?A then int i else si) \<and> ls' = (if ?A then res_point (edge_result h ls a) else ls)"
    show ?thesis
    proof (cases ?A)
      case True
      with same have "si' = int (i + 0) \<and> accepted (Fin 5) (edge_result h ls ((a # es) ! 0))
          \<and> ls' = res_point (edge_result h ls ((a # es) ! 0))" by simp
      then show ?thesis by (intro disjI2 exI[of _ 0]) auto
    next
      case False
      with same show ?thesis by simp
    qed
  next
    assume "\<exists>k<length es. si' = int (Suc i + k) \<and>
        (\<exists>q. accepted (Fin 5) (edge_result h q (es ! k)) \<and> ls' = res_point (edge_result h q (es ! k)))"
    then obtain k q where "k < length es" "si' = int (Suc i + k)"
        "accepted (Fin 5) (edge_result h q (es ! k))" "ls' = res_point (edge_result h q (es ! k))"
      by blast
    then have "Suc k < length (a # es) \<and> si' = int (i + Suc k)
        \<and> accepted (Fin 5) (edge_result h q ((a # es) ! Suc k))
        \<and> ls' = res_point (edge_result h q ((a # es) ! Suc k))" by simp
    then show ?thesis by blast
  qed
qed

lemma resnap_loop_end:
  "resnap_loop h es i (si, ls, ei, le) = (si', ls', ei', le') \<Longrightarrow>
     (ei' = ei \<and> le' = le) \<or>
     (\<exists>k<length es. ei' = int (i + k) \<and>
        (\<exists>q. accepted (Fin 5) (edge_result h q (es ! k))
              \<and> le' = res_point (edge_result h q (es ! k))))"
proof (induction es arbitrary: i si ls ei le)
  case Nil
  then show ?case by simp
next
  case (Cons a es)
  let ?A = "accepted (Fin 5) (edge_result h le a)"
  from Cons.prems have run: "resnap_loop h es (Suc i)
       (if accepted (Fin 5) (edge_result h ls a) then int i else si,
        if accepted (Fin 5) (edge_result h ls a) then res_point (edge_result h ls a) else ls,
        if ?A then int i else ei, if ?A then res_point (edge_result h le a) else le)
       = (si', ls', ei', le')"
    by (simp only: resnap_loop_Cons)
  from Cons.IH[OF run] show ?case
  proof
    assume same: "ei' = (if ?A then int i else ei) \<and> le' = (if ?A then res_point (edge_result h le a) else le)"
    show ?thesis
    proof (cases ?A)
      case True
      with same have "ei' = int (i + 0) \<and> accepted (Fin 5) (edge_result h le ((a # es) ! 0))
          \<and> le' = res_point (edge_result h le ((a # es) ! 0))" by simp
      then show ?thesis by (intro disjI2 exI[of _ 0]) auto
    next
      case False
      with same show ?thesis by simp
    qed
  next
    assume "\<exists>k<length es. ei' = int (Suc i + k) \<and>
        (\<exists>q. accepted (Fin 5) (edge_result h q (es ! k)) \<and> le' = res_point (edge_result h q (es ! k)))"
    then obtain k q where "k < length es" "ei' = int (Suc i + k)"
        "accepted (Fin 5) (edge_result h q (es ! k))" "le' = res_point (edge_result h q (es ! k))"
      by blast
    then have "Suc k < length (a # es) \<and> ei' = int (i + Suc k)
        \<and> accepted (Fin 5) (edge_result h q ((a # es) ! Suc k))
        \<and> le' = res_point (edge_result h q ((a # es) ! Suc k))" by simp
    then show ?thesis by blast
  qed
qed

lemma resnap_loop_start_none:
  "(fst (resnap_loop h es i (- 1, ls, ei, le)) = - 1) \<longleftrightarrow>
     (\<forall>e\<in>set es. \<not> accepted (Fin 5) (edge_result h ls e))"
proof (induction es arbitrary: i ei le)
  case Nil
  show ?case by simp
next
  case (Cons a es)
  show ?case
  proof (cases "accepted (Fin 5) (edge_result h ls a)")
    case True
    obtain si' ls' ei' le' where r: "resnap_loop h es (Suc i)
       (int i, res_point (edge_result h ls a),
        if accepted (Fin 5) (edge_result h le a) then int i else ei,
        if accepted (Fin 5) (edge_result h le a) then res_point (edge_result h le a) else le)
       = (si', ls', ei', le')" by (metis prod_cases4)
    from resnap_loop_start[OF r] have "si' \<noteq> - 1" by auto
    with r True show ?thesis by (simp add: resnap_loop_Cons del: resnap_loop.simps(2))
  next
    case False
    with Cons.IH show ?thesis by (simp add: resnap_loop_Cons del: resnap_loop.simps(2))
  qed
qed

lemma resnap_loop_end_none:
  "(fst (snd (snd (resnap_loop h es i (si, ls, - 1, le)))) = - 1) \<longleftrightarrow>
     (\<forall>e\<in>set es. \<not> accepted (Fin 5) (edge_result h le e))"
proof (induction es arbitrary: i si ls)
  case Nil
  show ?case by simp
next
  case (Cons a es)
  show ?case
  proof (cases "accepted (Fin 5) (edge_result h le a)")
    case True
    obtain si' ls' ei' le' where r: "resnap_loop h es (Suc i)
       (if accepted (Fin 5) (edge_result h ls a) then int i else si,
        if accepted (Fin 5) (edge_result h ls a) then res_point (edge_result h ls a) else ls,
        int i, res_point (edge_result h le a))
       = (si', ls', ei', le')" by (metis prod_cases4)
    from resnap_loop_end[OF r] have "ei' \<noteq> - 1" by auto
    with r True show ?thesis by (simp add: resnap_loop_Cons del: resnap_loop.simps(2))
  next
    case False
    with Cons.IH show ?thesis by (simp add: resnap_loop_Cons del: resnap_loop.simps(2))
  qed
qed

lemma mod_diff_zero:
  "0 \<le> a \<Longrightarrow> a < n \<Longrightarrow> 0 \<le> b \<Longrightarrow> b < n \<Longrightarrow> (b - a) mod n = 0 \<Longrightarrow> a = (b::int)"
  by (metis add.commute add.right_neutral diff_add_cancel mod_add_right_eq mod_pos_pos_trivial)

lemma mod_diff_step: "((j - (cur + 1) mod n) mod n) = ((j - cur) mod n - 1) mod (n::int)"
  by (simp add: add.commute diff_add_eq_diff_diff_swap mod_diff_left_eq mod_diff_right_eq)

lemma upt_shift: "[1..<Suc (Suc k)] = 1 # map Suc [1..<Suc k]"
  by (simp add: map_Suc_upt upt_conv_Cons)

lemma walk_edges_returns:
  assumes "es \<noteq> []"
  shows "0 \<le> cur \<Longrightarrow> cur < int (length es) \<Longrightarrow> 0 \<le> j \<Longrightarrow> j < int (length es)
    \<Longrightarrow> k = nat ((j - cur) mod int (length es))
    \<Longrightarrow> walk_edges h es cur j path =
          Some (path @ map (\<lambda>m. edge_p1 (h (es ! nat ((cur + int m) mod int (length es)))))
                         [1..<Suc k])"
proof (induction k arbitrary: cur path)
  case 0
  have "0 \<le> (j - cur) mod int (length es)" using assms by simp
  with 0 have "(j - cur) mod int (length es) = 0" by simp
  with 0 have "cur = j" by (intro mod_diff_zero[of cur "int (length es)" j]) simp_all
  then show ?case by (simp add: walk_edges.simps)
next
  case (Suc k)
  let ?n = "int (length es)"
  let ?c = "(cur + 1) mod ?n"
  have npos: "0 < ?n" using assms by simp
  from Suc.prems have ne: "cur \<noteq> j" by auto
  have c: "0 \<le> ?c" "?c < ?n" using npos by simp_all
  have "(j - ?c) mod ?n = ((j - cur) mod ?n - 1) mod ?n"
    by (rule mod_diff_step)
  also have "(j - cur) mod ?n = int (Suc k)" using Suc.prems(5) npos
    by (metis Suc.prems(5) int_nat_eq pos_mod_sign)
  also have "(int (Suc k) - 1) mod ?n = int k"
  proof -
    have "int (Suc k) < ?n" using \<open>(j - cur) mod ?n = int (Suc k)\<close> npos
      by (metis pos_mod_bound)
    then show ?thesis by simp
  qed
  finally have k: "k = nat ((j - ?c) mod ?n)" by simp
  have step: "walk_edges h es cur j path
      = walk_edges h es ?c j (path @ [edge_p1 (h (es ! nat ?c))])"
    using ne assms by (subst walk_edges.simps) (simp add: Let_def edge_p1_def)
  have idx: "\<And>m. (?c + int m) mod ?n = (cur + int (Suc m)) mod ?n"
    by (simp add: mod_simps algebra_simps)
  have "map (\<lambda>m. edge_p1 (h (es ! nat ((cur + int m) mod ?n)))) [1..<Suc (Suc k)]
      = edge_p1 (h (es ! nat ?c)) # map (\<lambda>m. edge_p1 (h (es ! nat ((?c + int m) mod ?n)))) [1..<Suc k]"
  proof -
    have "[1..<Suc (Suc k)] = 1 # map Suc [1..<Suc k]"
      by (rule upt_shift)
    then show ?thesis by (simp add: idx comp_def del: upt_Suc)
  qed
  with Suc.IH[OF c Suc.prems(3,4) k, of "path @ [edge_p1 (h (es ! nat ?c))]"] step
  show ?case by simp
qed

lemma resnap_indices:
  assumes "resnap_loop h es 0 (- 1, s0, - 1, e0) = (i, ls, j, le)"
  shows "(i = - 1 \<or> (0 \<le> i \<and> i < int (length es))) \<and> (j = - 1 \<or> (0 \<le> j \<and> j < int (length es)))"
  using resnap_loop_start[OF assms] resnap_loop_end[OF assms] by auto

lemma resnap_loop_start_skip:
  "\<forall>y\<in>set ys. \<not> accepted (Fin 5) (edge_result h ls y) \<Longrightarrow>
     \<exists>ei' le'. resnap_loop h ys i (si, ls, ei, le) = (si, ls, ei', le')"
proof (induction ys arbitrary: i ei le)
  case Nil
  then show ?case by simp
next
  case (Cons a ys)
  then show ?case by (simp add: resnap_loop_Cons del: resnap_loop.simps(2))
qed

lemma resnap_loop_end_skip:
  "\<forall>y\<in>set ys. \<not> accepted (Fin 5) (edge_result h le y) \<Longrightarrow>
     \<exists>si' ls'. resnap_loop h ys i (si, ls, ei, le) = (si', ls', ei, le)"
proof (induction ys arbitrary: i si ls)
  case Nil
  then show ?case by simp
next
  case (Cons a ys)
  then show ?case by (simp add: resnap_loop_Cons del: resnap_loop.simps(2))
qed

lemma resnap_loop_start_unique:
  assumes "\<forall>y\<in>set pre. \<not> accepted (Fin 5) (edge_result h ls y)"
    and "accepted (Fin 5) (edge_result h ls x)"
    and "\<forall>y\<in>set post. \<not> accepted (Fin 5) (edge_result h (res_point (edge_result h ls x)) y)"
  shows "\<exists>ei' le'. resnap_loop h (pre @ x # post) i (si, ls, ei, le)
           = (int (i + length pre), res_point (edge_result h ls x), ei', le')"
  using assms(1)
proof (induction pre arbitrary: i ei le)
  case Nil
  from resnap_loop_start_skip[OF assms(3)] assms(2) show ?case
    by (simp add: resnap_loop_Cons del: resnap_loop.simps(2))
next
  case (Cons a pre)
  let ?ei = "if accepted (Fin 5) (edge_result h le a) then int i else ei"
  let ?le = "if accepted (Fin 5) (edge_result h le a) then res_point (edge_result h le a) else le"
  from Cons.prems have na: "\<not> accepted (Fin 5) (edge_result h ls a)"
    and rest: "\<forall>y\<in>set pre. \<not> accepted (Fin 5) (edge_result h ls y)" by simp_all
  have step: "resnap_loop h ((a # pre) @ x # post) i (si, ls, ei, le)
      = resnap_loop h (pre @ x # post) (Suc i) (si, ls, ?ei, ?le)"
    using na by (simp add: resnap_loop_Cons del: resnap_loop.simps(2))
  from Cons.IH[OF rest, of "Suc i" ?ei ?le] show ?case
    unfolding step by simp
qed

lemma resnap_loop_end_unique:
  assumes "\<forall>y\<in>set pre. \<not> accepted (Fin 5) (edge_result h le y)"
    and "accepted (Fin 5) (edge_result h le x)"
    and "\<forall>y\<in>set post. \<not> accepted (Fin 5) (edge_result h (res_point (edge_result h le x)) y)"
  shows "\<exists>si' ls'. resnap_loop h (pre @ x # post) i (si, ls, ei, le)
           = (si', ls', int (i + length pre), res_point (edge_result h le x))"
  using assms(1)
proof (induction pre arbitrary: i si ls)
  case Nil
  from resnap_loop_end_skip[OF assms(3)] assms(2) show ?case
    by (simp add: resnap_loop_Cons del: resnap_loop.simps(2))
next
  case (Cons a pre)
  let ?si = "if accepted (Fin 5) (edge_result h ls a) then int i else si"
  let ?ls = "if accepted (Fin 5) (edge_result h ls a) then res_point (edge_result h ls a) else ls"
  from Cons.prems have na: "\<not> accepted (Fin 5) (edge_result h le a)"
    and rest: "\<forall>y\<in>set pre. \<not> accepted (Fin 5) (edge_result h le y)" by simp_all
  have step: "resnap_loop h ((a # pre) @ x # post) i (si, ls, ei, le)
      = resnap_loop h (pre @ x # post) (Suc i) (?si, ?ls, ei, le)"
    using na by (simp add: resnap_loop_Cons del: resnap_loop.simps(2))
  from Cons.IH[OF rest, of "Suc i" ?si ?ls] show ?case
    unfolding step by simp
qed

lemma resnap_loop_two_edges:
  assumes "es = pre @ x # post" and "es = pre' @ x' # post'"
    and "\<forall>y\<in>set pre. \<not> accepted (Fin 5) (edge_result h ls y)"
    and "accepted (Fin 5) (edge_result h ls x)"
    and "\<forall>y\<in>set post. \<not> accepted (Fin 5) (edge_result h (res_point (edge_result h ls x)) y)"
    and "\<forall>y\<in>set pre'. \<not> accepted (Fin 5) (edge_result h le y)"
    and "accepted (Fin 5) (edge_result h le x')"
    and "\<forall>y\<in>set post'. \<not> accepted (Fin 5) (edge_result h (res_point (edge_result h le x')) y)"
  shows "resnap_loop h es 0 (- 1, ls, - 1, le)
           = (int (length pre), res_point (edge_result h ls x),
              int (length pre'), res_point (edge_result h le x'))"
proof -
  from resnap_loop_start_unique[OF assms(3-5), of 0 "- 1" "- 1" le]
  obtain ei' le' where a: "resnap_loop h es 0 (- 1, ls, - 1, le)
      = (int (length pre), res_point (edge_result h ls x), ei', le')"
    unfolding assms(1) by auto
  from resnap_loop_end_unique[OF assms(6-8), of 0 "- 1" ls "- 1"]
  obtain si' ls' where b: "resnap_loop h es 0 (- 1, ls, - 1, le)
      = (si', ls', int (length pre'), res_point (edge_result h le x'))"
    unfolding assms(2) by auto
  from a b show ?thesis by simp
qed

text \<open>
  C3. The claim is that each endpoint is re-snapped to its nearest edge among those
  within 5 units, and that the path starts (ends) at that position. The loop keeps no
  minimum: every accepting edge overwrites the index and the point, and the following
  edges are measured from the overwritten point. On the square, the start point
  \<open>(97, 0)\<close> lies on edge 0 (distance 0, projection \<open>(97, 0)\<close>) and is at distance 3 from
  edge 1; the returned path starts at the corner \<open>(100, 0)\<close> of edge 1, and for two
  points of edge 0 the path runs around the whole square.
\<close>

theorem findPathBetweenPoints_last_edge_wins:
  "findPathBetweenPoints square (Point (Fin 97) (Fin 0)) (Point (Fin 50) (Fin 100))
     = Some [Point (Fin 100) (Fin 0), Point (Fin 100) (Fin 100), Point (Fin 50) (Fin 100)]
   \<and> res_distance (edge_result (eheap square) (Point (Fin 97) (Fin 0)) 0) = Fin 0
   \<and> res_point (edge_result (eheap square) (Point (Fin 97) (Fin 0)) 0) = Point (Fin 97) (Fin 0)
   \<and> res_distance (edge_result (eheap square) (Point (Fin 97) (Fin 0)) 1) = Fin 3
   \<and> findPathBetweenPoints square (Point (Fin 97) (Fin 0)) (Point (Fin 50) (Fin 0))
     = Some [Point (Fin 100) (Fin 0), Point (Fin 100) (Fin 100), Point (Fin 0) (Fin 100),
             Point (Fin 0) (Fin 0), Point (Fin 50) (Fin 0)]"
  by (simp add: square_eval path_eval)

text \<open>
  C4. When the two endpoints snap onto edges of distinct indices \<open>i \<noteq> j\<close>, the function
  returns, and its result is the snapped start, then the starting vertices of the
  edges \<open>i + 1, i + 2, \<dots>, j\<close> taken modulo the number of edges (always forward), then
  the snapped end: \<open>k + 2\<close> points with \<open>k = (j - i) mod n\<close>. This holds when the re-snap
  loop ends with the indices \<open>i\<close> and \<open>j\<close>; it holds in particular when the edge at
  index \<open>i\<close> is the first to accept the start point and no later edge accepts the
  position snapped onto it, and likewise for the end point and the index \<open>j\<close>.
\<close>

theorem findPathBetweenPoints_walks_forward:
  "(resnap_loop (eheap object) (edges object) 0 (- 1, localStart, - 1, localEnd) = (i, s, j, e)
      \<and> i \<noteq> - 1 \<and> j \<noteq> - 1 \<and> i \<noteq> j \<longrightarrow>
      findPathBetweenPoints object localStart localEnd =
        Some ([s] @ map (\<lambda>m. edge_p1 (eheap object
                            (edges object ! nat ((i + int m) mod int (length (edges object))))))
                      [1..<Suc (nat ((j - i) mod int (length (edges object))))]
              @ [e])
      \<and> (\<forall>path. findPathBetweenPoints object localStart localEnd = Some path \<longrightarrow>
            length path = nat ((j - i) mod int (length (edges object))) + 2))
   \<and> (edges object = pre @ x # post \<and> edges object = pre' @ x' # post'
      \<and> length pre \<noteq> length pre'
      \<and> (\<forall>y\<in>set pre. \<not> accepted (Fin 5) (edge_result (eheap object) localStart y))
      \<and> accepted (Fin 5) (edge_result (eheap object) localStart x)
      \<and> (\<forall>y\<in>set post. \<not> accepted (Fin 5) (edge_result (eheap object)
                               (res_point (edge_result (eheap object) localStart x)) y))
      \<and> (\<forall>y\<in>set pre'. \<not> accepted (Fin 5) (edge_result (eheap object) localEnd y))
      \<and> accepted (Fin 5) (edge_result (eheap object) localEnd x')
      \<and> (\<forall>y\<in>set post'. \<not> accepted (Fin 5) (edge_result (eheap object)
                                (res_point (edge_result (eheap object) localEnd x')) y)) \<longrightarrow>
      findPathBetweenPoints object localStart localEnd =
        Some ([res_point (edge_result (eheap object) localStart x)]
              @ map (\<lambda>m. edge_p1 (eheap object
                            (edges object ! nat ((int (length pre) + int m)
                                                  mod int (length (edges object))))))
                  [1..<Suc (nat ((int (length pre') - int (length pre))
                                  mod int (length (edges object))))]
              @ [res_point (edge_result (eheap object) localEnd x')]))"
proof -
  let ?es = "edges object" and ?h = "eheap object"
  have main: "findPathBetweenPoints object localStart localEnd =
        Some ([s] @ map (\<lambda>m. edge_p1 (?h (?es ! nat ((i + int m) mod int (length ?es)))))
                      [1..<Suc (nat ((j - i) mod int (length ?es)))]
              @ [e])"
    if r: "resnap_loop ?h ?es 0 (- 1, localStart, - 1, localEnd) = (i, s, j, e)"
      and ij: "i \<noteq> - 1" "j \<noteq> - 1" "i \<noteq> j" for i s j e
  proof -
    from resnap_indices[OF r] ij
    have rng: "0 \<le> i" "i < int (length ?es)" "0 \<le> j" "j < int (length ?es)" by auto
    then have ne: "?es \<noteq> []" by auto
    from walk_edges_returns[OF ne rng refl, of ?h "[s]"]
    have w: "walk_edges ?h ?es i j [s] =
        Some ([s] @ map (\<lambda>m. edge_p1 (?h (?es ! nat ((i + int m) mod int (length ?es)))))
                      [1..<Suc (nat ((j - i) mod int (length ?es)))])" .
    show ?thesis unfolding findPathBetweenPoints_def r using ij w by simp
  qed
  show ?thesis
  proof (intro conjI impI)
    assume a: "resnap_loop ?h ?es 0 (- 1, localStart, - 1, localEnd) = (i, s, j, e)
        \<and> i \<noteq> - 1 \<and> j \<noteq> - 1 \<and> i \<noteq> j"
    then have m: "findPathBetweenPoints object localStart localEnd =
        Some ([s] @ map (\<lambda>m. edge_p1 (?h (?es ! nat ((i + int m) mod int (length ?es)))))
                      [1..<Suc (nat ((j - i) mod int (length ?es)))]
              @ [e])"
      by (intro main) simp_all
    then show "findPathBetweenPoints object localStart localEnd =
        Some ([s] @ map (\<lambda>m. edge_p1 (?h (?es ! nat ((i + int m) mod int (length ?es)))))
                      [1..<Suc (nat ((j - i) mod int (length ?es)))]
              @ [e])" .
    from m show "\<forall>path. findPathBetweenPoints object localStart localEnd = Some path \<longrightarrow>
        length path = nat ((j - i) mod int (length ?es)) + 2"
      by simp
  next
    assume b: "?es = pre @ x # post \<and> ?es = pre' @ x' # post'
      \<and> length pre \<noteq> length pre'
      \<and> (\<forall>y\<in>set pre. \<not> accepted (Fin 5) (edge_result ?h localStart y))
      \<and> accepted (Fin 5) (edge_result ?h localStart x)
      \<and> (\<forall>y\<in>set post. \<not> accepted (Fin 5) (edge_result ?h
                               (res_point (edge_result ?h localStart x)) y))
      \<and> (\<forall>y\<in>set pre'. \<not> accepted (Fin 5) (edge_result ?h localEnd y))
      \<and> accepted (Fin 5) (edge_result ?h localEnd x')
      \<and> (\<forall>y\<in>set post'. \<not> accepted (Fin 5) (edge_result ?h
                                (res_point (edge_result ?h localEnd x')) y))"
    then have "resnap_loop ?h ?es 0 (- 1, localStart, - 1, localEnd)
        = (int (length pre), res_point (edge_result ?h localStart x),
           int (length pre'), res_point (edge_result ?h localEnd x'))"
      by (intro resnap_loop_two_edges[of ?es pre x post pre' x' post']) blast+
    moreover from b have "int (length pre) \<noteq> int (length pre')" by simp
    ultimately show "findPathBetweenPoints object localStart localEnd =
        Some ([res_point (edge_result ?h localStart x)]
              @ map (\<lambda>m. edge_p1 (?h (?es ! nat ((int (length pre) + int m)
                                                  mod int (length ?es)))))
                  [1..<Suc (nat ((int (length pre') - int (length pre)) mod int (length ?es)))]
              @ [res_point (edge_result ?h localEnd x')])"
      by (intro main) simp_all
  qed
qed

text \<open>
  The theorem on the square, from the middle of edge 0 to the middle of edge 2: a
  path of 4 points. From the middle of edge 2 to the middle of edge 1 the walk goes
  forward through three vertices, although edge 1 is the previous edge.
\<close>

theorem findPathBetweenPoints_walks_forward_witness:
  "resnap_loop (eheap square) (edges square) 0
       (- 1, Point (Fin 50) (Fin 0), - 1, Point (Fin 50) (Fin 100))
     = (0, Point (Fin 50) (Fin 0), 2, Point (Fin 50) (Fin 100))
   \<and> findPathBetweenPoints square (Point (Fin 50) (Fin 0)) (Point (Fin 50) (Fin 100))
     = Some [Point (Fin 50) (Fin 0), Point (Fin 100) (Fin 0), Point (Fin 100) (Fin 100),
             Point (Fin 50) (Fin 100)]
   \<and> findPathBetweenPoints square (Point (Fin 50) (Fin 100)) (Point (Fin 100) (Fin 50))
     = Some [Point (Fin 50) (Fin 100), Point (Fin 0) (Fin 100), Point (Fin 0) (Fin 0),
             Point (Fin 100) (Fin 0), Point (Fin 100) (Fin 50)]"
proof -
  have r: "resnap_loop (eheap square) (edges square) 0
       (- 1, Point (Fin 50) (Fin 0), - 1, Point (Fin 50) (Fin 100))
     = (0, Point (Fin 50) (Fin 0), 2, Point (Fin 50) (Fin 100))"
    by (simp add: square_eval)
  have r': "resnap_loop (eheap square) (edges square) 0
       (- 1, Point (Fin 50) (Fin 100), - 1, Point (Fin 100) (Fin 50))
     = (2, Point (Fin 50) (Fin 100), 1, Point (Fin 100) (Fin 50))"
    by (simp add: square_eval)
  have v: "[Point (Fin 50) (Fin 0)]
        @ map (\<lambda>m. edge_p1 (eheap square
                   (edges square ! nat ((0 + int m) mod int (length (edges square))))))
            [1..<Suc (nat ((2 - 0) mod int (length (edges square))))]
        @ [Point (Fin 50) (Fin 100)]
      = [Point (Fin 50) (Fin 0), Point (Fin 100) (Fin 0), Point (Fin 100) (Fin 100),
         Point (Fin 50) (Fin 100)]"
    by (simp add: square_def example_edge_def edge_p1_def upt_conv_Cons eval_nat_numeral)
  have v': "[Point (Fin 50) (Fin 100)]
        @ map (\<lambda>m. edge_p1 (eheap square
                   (edges square ! nat ((2 + int m) mod int (length (edges square))))))
            [1..<Suc (nat ((1 - 2) mod int (length (edges square))))]
        @ [Point (Fin 100) (Fin 50)]
      = [Point (Fin 50) (Fin 100), Point (Fin 0) (Fin 100), Point (Fin 0) (Fin 0),
         Point (Fin 100) (Fin 0), Point (Fin 100) (Fin 50)]"
    by (simp add: square_def example_edge_def edge_p1_def upt_conv_Cons eval_nat_numeral)
  have "findPathBetweenPoints square (Point (Fin 50) (Fin 0)) (Point (Fin 50) (Fin 100))
     = Some [Point (Fin 50) (Fin 0), Point (Fin 100) (Fin 0), Point (Fin 100) (Fin 100),
             Point (Fin 50) (Fin 100)]"
    using findPathBetweenPoints_walks_forward[of square "Point (Fin 50) (Fin 0)"
        "Point (Fin 50) (Fin 100)" 0 "Point (Fin 50) (Fin 0)" 2 "Point (Fin 50) (Fin 100)",
        THEN conjunct1, THEN mp, THEN conjunct1] r
    by (simp only: v) simp
  moreover
  have "findPathBetweenPoints square (Point (Fin 50) (Fin 100)) (Point (Fin 100) (Fin 50))
     = Some [Point (Fin 50) (Fin 100), Point (Fin 0) (Fin 100), Point (Fin 0) (Fin 0),
             Point (Fin 100) (Fin 0), Point (Fin 100) (Fin 50)]"
    using findPathBetweenPoints_walks_forward[of square "Point (Fin 50) (Fin 100)"
        "Point (Fin 100) (Fin 50)" 2 "Point (Fin 50) (Fin 100)" 1 "Point (Fin 100) (Fin 50)",
        THEN conjunct1, THEN mp, THEN conjunct1] r'
    by (simp only: v') simp
  ultimately show ?thesis using r by blast
qed

text \<open>
  C5. The claim is that two endpoints snapped onto the same edge give exactly two
  points, the two snapped input positions. On the square, \<open>findClosestEdgePoint\<close> snaps
  \<open>(97, 0)\<close> and \<open>(50, 0)\<close> onto edge 0, at those very positions; but the re-snap loop
  moves \<open>(97, 0)\<close> on to edge 1, which also accepts it, and the path from \<open>(97, 0)\<close> to
  \<open>(50, 0)\<close> has 5 points and runs around the whole square. Likewise \<open>(100, 3)\<close> and
  \<open>(100, 50)\<close> are snapped onto edge 1; the path has two points, but its first point is
  the corner \<open>(100, 0)\<close> and not the snapped input \<open>(100, 3)\<close>.
\<close>

theorem findPathBetweenPoints_same_edge_fails:
  "findClosestEdgePoint (\<lambda>p. p) square (Point (Fin 97) (Fin 0))
     = Some (Point (Fin 97) (Fin 0), 0)
   \<and> findClosestEdgePoint (\<lambda>p. p) square (Point (Fin 50) (Fin 0))
     = Some (Point (Fin 50) (Fin 0), 0)
   \<and> findPathBetweenPoints square (Point (Fin 97) (Fin 0)) (Point (Fin 50) (Fin 0))
     = Some [Point (Fin 100) (Fin 0), Point (Fin 100) (Fin 100), Point (Fin 0) (Fin 100),
             Point (Fin 0) (Fin 0), Point (Fin 50) (Fin 0)]
   \<and> findClosestEdgePoint (\<lambda>p. p) square (Point (Fin 100) (Fin 3))
     = Some (Point (Fin 100) (Fin 3), 1)
   \<and> findClosestEdgePoint (\<lambda>p. p) square (Point (Fin 100) (Fin 50))
     = Some (Point (Fin 100) (Fin 50), 1)
   \<and> findPathBetweenPoints square (Point (Fin 100) (Fin 3)) (Point (Fin 100) (Fin 50))
     = Some [Point (Fin 100) (Fin 0), Point (Fin 100) (Fin 50)]"
  by (simp add: square_eval path_eval findClosestEdgePoint_def)

text \<open>
  C6. \<open>findPathBetweenPoints\<close> always returns, and it returns the empty sequence if
  and only if one of the two endpoints is accepted by no edge of the polygon (distance
  below 5 with \<open>0 \<le> t \<le> 1\<close>).
\<close>

theorem findPathBetweenPoints_empty_iff:
  "(\<exists>path. findPathBetweenPoints object localStart localEnd = Some path)
   \<and> (findPathBetweenPoints object localStart localEnd = Some [] \<longleftrightarrow>
        (\<forall>x\<in>set (edges object). \<not> accepted (Fin 5) (edge_result (eheap object) localStart x))
        \<or> (\<forall>x\<in>set (edges object). \<not> accepted (Fin 5) (edge_result (eheap object) localEnd x)))"
proof -
  let ?es = "edges object" and ?h = "eheap object"
  obtain i s j e where r: "resnap_loop ?h ?es 0 (- 1, localStart, - 1, localEnd) = (i, s, j, e)"
    by (metis prod_cases4)
  have i: "i = - 1 \<longleftrightarrow> (\<forall>x\<in>set ?es. \<not> accepted (Fin 5) (edge_result ?h localStart x))"
    using resnap_loop_start_none[of ?h ?es 0 localStart "- 1" localEnd] r by simp
  have j: "j = - 1 \<longleftrightarrow> (\<forall>x\<in>set ?es. \<not> accepted (Fin 5) (edge_result ?h localEnd x))"
    using resnap_loop_end_none[of ?h ?es 0 "- 1" localStart localEnd] r by simp
  show ?thesis
  proof (cases "i = - 1 \<or> j = - 1")
    case True
    then have "findPathBetweenPoints object localStart localEnd = Some []"
      unfolding findPathBetweenPoints_def r by simp
    with True i j show ?thesis by blast
  next
    case False
    show ?thesis
    proof (cases "i = j")
      case True
      with False have "findPathBetweenPoints object localStart localEnd = Some [s, e]"
        unfolding findPathBetweenPoints_def r by simp
      with False i j show ?thesis by auto
    next
      case neq: False
      from resnap_indices[OF r] False
      have rng: "0 \<le> i" "i < int (length ?es)" "0 \<le> j" "j < int (length ?es)" by auto
      then have ne: "?es \<noteq> []" by auto
      from walk_edges_returns[OF ne rng refl, of ?h "[s]"]
      obtain p where "walk_edges ?h ?es i j [s] = Some p" by blast
      with False neq have "findPathBetweenPoints object localStart localEnd = Some (p @ [e])"
        unfolding findPathBetweenPoints_def r by simp
      with False i j show ?thesis by auto
    qed
  qed
qed

text \<open>
  The theorem on the square: the centre \<open>(50, 50)\<close> is accepted by none of the four
  edges, and the path from it to \<open>(50, 0)\<close> is empty.
\<close>

theorem findPathBetweenPoints_empty_iff_witness:
  "\<not> accepted (Fin 5) (edge_result (eheap square) (Point (Fin 50) (Fin 50)) 0)
   \<and> \<not> accepted (Fin 5) (edge_result (eheap square) (Point (Fin 50) (Fin 50)) 1)
   \<and> \<not> accepted (Fin 5) (edge_result (eheap square) (Point (Fin 50) (Fin 50)) 2)
   \<and> \<not> accepted (Fin 5) (edge_result (eheap square) (Point (Fin 50) (Fin 50)) 3)
   \<and> findPathBetweenPoints square (Point (Fin 50) (Fin 50)) (Point (Fin 50) (Fin 0)) = Some []"
proof -
  have n: "\<not> accepted (Fin 5) (edge_result (eheap square) (Point (Fin 50) (Fin 50)) 0)"
      "\<not> accepted (Fin 5) (edge_result (eheap square) (Point (Fin 50) (Fin 50)) 1)"
      "\<not> accepted (Fin 5) (edge_result (eheap square) (Point (Fin 50) (Fin 50)) 2)"
      "\<not> accepted (Fin 5) (edge_result (eheap square) (Point (Fin 50) (Fin 50)) 3)"
    by (simp_all add: square_eval)
  have "set (edges square) = {0, 1, 2, 3}" by (auto simp: square_def)
  with n have "\<forall>x\<in>set (edges square).
      \<not> accepted (Fin 5) (edge_result (eheap square) (Point (Fin 50) (Fin 50)) x)"
    by simp
  with findPathBetweenPoints_empty_iff[of square "Point (Fin 50) (Fin 50)" "Point (Fin 50) (Fin 0)"]
  have "findPathBetweenPoints square (Point (Fin 50) (Fin 50)) (Point (Fin 50) (Fin 0)) = Some []"
    by blast
  with n show ?thesis by blast
qed

section \<open>Arrays, and what the coordinate refresh leaves alone\<close>

lemma js_indexOf_ge: "- 1 \<le> js_indexOf xs v"
  by (induction xs) (auto simp: Let_def)

lemma js_indexOf_notin: "v \<notin> set xs \<Longrightarrow> js_indexOf xs v = - 1"
  by (induction xs) (auto simp: Let_def)

lemma js_indexOf_in:
  "v \<in> set xs \<Longrightarrow>
     0 \<le> js_indexOf xs v \<and> nat (js_indexOf xs v) < length xs
     \<and> xs ! nat (js_indexOf xs v) = v
     \<and> v \<notin> set (take (nat (js_indexOf xs v)) xs)"
proof (induction xs)
  case Nil
  then show ?case by simp
next
  case (Cons a xs)
  show ?case
  proof (cases "a = v")
    case True
    then show ?thesis by simp
  next
    case False
    with Cons.prems have "v \<in> set xs" by simp
    from Cons.IH[OF this] False show ?thesis
      by (auto simp: Let_def nat_add_distrib)
  qed
qed

lemma js_indexOf_gt_iff: "js_indexOf xs v > - 1 \<longleftrightarrow> v \<in> set xs"
proof (cases "v \<in> set xs")
  case True
  from js_indexOf_in[OF this] have "0 \<le> js_indexOf xs v" by blast
  with True show ?thesis by simp
next
  case False
  then show ?thesis by (simp add: js_indexOf_notin)
qed

lemma js_splice_nth:
  "i < length xs \<Longrightarrow> js_splice xs (int i) (Suc 0) items = take i xs @ items @ drop (Suc i) xs"
  by (simp add: js_splice_def Let_def min_def)

lemma js_splice_insert:
  "i \<le> length xs \<Longrightarrow> js_splice xs (int i) 0 items = take i xs @ items @ drop i xs"
  by (simp add: js_splice_def Let_def min_def)

lemma length_js_splice_insert: "length (js_splice xs start 0 items) = length xs + length items"
  by (auto simp add: js_splice_def Let_def min_def max_def)

lemma remove1_first:
  "v \<notin> set (take i xs) \<Longrightarrow> i < length xs \<Longrightarrow> xs ! i = v
     \<Longrightarrow> remove1 v xs = take i xs @ drop (Suc i) xs"
proof (induction xs arbitrary: i)
  case Nil
  then show ?case by simp
next
  case (Cons a xs)
  then show ?case by (cases i) auto
qed

lemma js_splice_indexOf:
  assumes "v \<in> set xs"
  shows "js_splice xs (js_indexOf xs v) (Suc 0) [] = remove1 v xs"
proof -
  from js_indexOf_in[OF assms] obtain i where
    i: "js_indexOf xs v = int i" "i < length xs" "xs ! i = v" "v \<notin> set (take i xs)"
    by (metis int_nat_eq)
  then show ?thesis by (simp add: js_splice_nth remove1_first)
qed

lemma updatePosition_links:
  "nextEdge (updatePosition anchor vh eh e r) = nextEdge (eh r)"
  "prevEdge (updatePosition anchor vh eh e r) = prevEdge (eh r)"
  "source (updatePosition anchor vh eh e r) = source (eh r)"
  "target (updatePosition anchor vh eh e r) = target (eh r)"
  by (simp_all add: updatePosition_def)

lemma foldl_updatePosition_links:
  "nextEdge (foldl (updatePosition anchor vh) eh es r) = nextEdge (eh r)
   \<and> prevEdge (foldl (updatePosition anchor vh) eh es r) = prevEdge (eh r)
   \<and> source (foldl (updatePosition anchor vh) eh es r) = source (eh r)
   \<and> target (foldl (updatePosition anchor vh) eh es r) = target (eh r)"
  by (induction es arbitrary: eh) (simp_all add: updatePosition_links)

lemma initializeCoordinateSystem_links:
  "nextEdge (eheap (initializeCoordinateSystem anchor this) r) = nextEdge (eheap this r)
   \<and> prevEdge (eheap (initializeCoordinateSystem anchor this) r) = prevEdge (eheap this r)
   \<and> source (eheap (initializeCoordinateSystem anchor this) r) = source (eheap this r)
   \<and> target (eheap (initializeCoordinateSystem anchor this) r) = target (eheap this r)"
proof -
  have "\<And>eh. nextEdge (foldl (\<lambda>eh vertex. foldl (updatePosition anchor (vheap this)) eh
              (v_edges (vheap this vertex))) eh vs r) = nextEdge (eh r)
     \<and> prevEdge (foldl (\<lambda>eh vertex. foldl (updatePosition anchor (vheap this)) eh
              (v_edges (vheap this vertex))) eh vs r) = prevEdge (eh r)
     \<and> source (foldl (\<lambda>eh vertex. foldl (updatePosition anchor (vheap this)) eh
              (v_edges (vheap this vertex))) eh vs r) = source (eh r)
     \<and> target (foldl (\<lambda>eh vertex. foldl (updatePosition anchor (vheap this)) eh
              (v_edges (vheap this vertex))) eh vs r) = target (eh r)" for vs
    by (induction vs) (simp_all add: foldl_updatePosition_links)
  then show ?thesis by (simp add: initializeCoordinateSystem_def)
qed

lemma initializeCoordinateSystem_fields:
  "vertices (initializeCoordinateSystem anchor this) = vertices this"
  "edges (initializeCoordinateSystem anchor this) = edges this"
  "doors (initializeCoordinateSystem anchor this) = doors this"
  "objects (initializeCoordinateSystem anchor this) = objects this"
  "vheap (initializeCoordinateSystem anchor this) = vheap this"
  "dheap (initializeCoordinateSystem anchor this) = dheap this"
  "fresh (initializeCoordinateSystem anchor this) = fresh this"
  by (simp_all add: initializeCoordinateSystem_def)

lemma updateObjects_fields:
  "vertices (updateObjects anchor this) = vertices this"
  "edges (updateObjects anchor this) = edges this"
  "doors (updateObjects anchor this) = doors this"
  "objects (updateObjects anchor this)
     = map VertexObj (vertices this) @ map EdgeObj (edges this) @ map DoorObj (doors this)"
  "vheap (updateObjects anchor this) = vheap this"
  "dheap (updateObjects anchor this) = dheap this"
  "fresh (updateObjects anchor this) = fresh this"
  by (simp_all add: updateObjects_def initializeCoordinateSystem_fields)

lemma updateObjects_links:
  "nextEdge (eheap (updateObjects anchor this) r) = nextEdge (eheap this r)
   \<and> prevEdge (eheap (updateObjects anchor this) r) = prevEdge (eheap this r)
   \<and> source (eheap (updateObjects anchor this) r) = source (eheap this r)
   \<and> target (eheap (updateObjects anchor this) r) = target (eheap this r)"
  unfolding updateObjects_def using initializeCoordinateSystem_links by simp

lemma removeDoor_present:
  assumes "door \<in> set (doors this)"
  shows "doors (removeDoor anchor this door) = remove1 door (doors this)"
    and "objects (removeDoor anchor this door)
           = map VertexObj (vertices this) @ map EdgeObj (edges this)
             @ map DoorObj (remove1 door (doors this))"
    and "vertices (removeDoor anchor this door) = vertices this"
    and "edges (removeDoor anchor this door) = edges this"
  using assms
  by (simp_all add: removeDoor_def Let_def js_indexOf_gt_iff js_splice_indexOf updateObjects_fields)

lemma removeDoor_absent: "door \<notin> set (doors this) \<Longrightarrow> removeDoor anchor this door = this"
  by (simp add: removeDoor_def Let_def js_indexOf_notin)

text \<open>
  C8. When the door is in the doors list, \<open>removeDoor\<close> removes its (first) entry from
  the doors list, which gets one shorter, and rebuilds the child-object list from the
  vertices, the edges and the remaining doors; a door object is entered once in the
  list, and then it is in neither list afterwards. When the door is not in the doors
  list, \<open>removeDoor\<close> changes nothing, and the size of the doors list is the same.
\<close>

theorem removeDoor_removes:
  "(door \<in> set (doors this) \<longrightarrow>
      doors (removeDoor anchor this door) = remove1 door (doors this)
      \<and> length (doors (removeDoor anchor this door)) = length (doors this) - 1
      \<and> objects (removeDoor anchor this door)
          = map VertexObj (vertices this) @ map EdgeObj (edges this)
            @ map DoorObj (remove1 door (doors this))
      \<and> (distinct (doors this) \<longrightarrow>
            door \<notin> set (doors (removeDoor anchor this door))
            \<and> DoorObj door \<notin> set (objects (removeDoor anchor this door))))
   \<and> (door \<notin> set (doors this) \<longrightarrow>
        removeDoor anchor this door = this
        \<and> length (doors (removeDoor anchor this door)) = length (doors this))"
proof (intro conjI impI)
  assume "door \<notin> set (doors this)"
  then show "removeDoor anchor this door = this" 
    and "length (doors (removeDoor anchor this door)) = length (doors this)"
    by (simp_all add: removeDoor_absent)
next
  assume p: "door \<in> set (doors this)"
  show d: "doors (removeDoor anchor this door) = remove1 door (doors this)"
    by (rule removeDoor_present(1)[OF p])
  show "length (doors (removeDoor anchor this door)) = length (doors this) - 1"
    using p by (simp add: d length_remove1)
  show o: "objects (removeDoor anchor this door)
          = map VertexObj (vertices this) @ map EdgeObj (edges this)
            @ map DoorObj (remove1 door (doors this))"
    by (rule removeDoor_present(2)[OF p])
  assume "distinct (doors this)"
  then show "door \<notin> set (doors (removeDoor anchor this door))"
    by (simp add: d)
  from \<open>distinct (doors this)\<close> show "DoorObj door \<notin> set (objects (removeDoor anchor this door))"
    by (auto simp add: o)
qed

text \<open>
  The theorem on the square with one door: removing door 4 empties the doors list and
  the child-object list holds no door; removing the unknown door 9 changes nothing.
\<close>

theorem removeDoor_removes_witness:
  "4 \<in> set (doors square_with_door)
   \<and> distinct (doors square_with_door)
   \<and> doors (removeDoor example_anchor square_with_door 4) = []
   \<and> DoorObj 4 \<notin> set (objects (removeDoor example_anchor square_with_door 4))
   \<and> 9 \<notin> set (doors square_with_door)
   \<and> removeDoor example_anchor square_with_door 9 = square_with_door"
proof -
  have h: "4 \<in> set (doors square_with_door)" "distinct (doors square_with_door)"
      "9 \<notin> set (doors square_with_door)"
    by (simp_all add: square_with_door_def)
  have r: "remove1 4 (doors square_with_door) = []" by (simp add: square_with_door_def)
  note t = removeDoor_removes[of 4 square_with_door example_anchor, THEN conjunct1, THEN mp,
      OF h(1)]
  from t have "doors (removeDoor example_anchor square_with_door 4)
      = remove1 4 (doors square_with_door)" by blast
  then have "doors (removeDoor example_anchor square_with_door 4) = []" by (simp only: r)
  moreover from t h(2)
  have "DoorObj 4 \<notin> set (objects (removeDoor example_anchor square_with_door 4))" by blast
  moreover
  from removeDoor_removes[of 9 square_with_door example_anchor, THEN conjunct2, THEN mp, OF h(3)]
  have "removeDoor example_anchor square_with_door 9 = square_with_door" by blast
  ultimately show ?thesis using h by blast
qed

section \<open>The door gesture\<close>

text \<open>
  C9. In the state awaiting the second point (\<open>isDrawing\<close> true, a start point set), when
  the click snaps to an edge but the routed path has fewer than 2 points,
  \<open>handleMouseDown\<close> returns to the idle state (\<open>isDrawing\<close> false, \<open>startPoint\<close> null) and
  the polygon is left as it was: its doors list, its child-object list and its stores
  are unchanged, so no door is created.
\<close>

theorem handleMouseDown_routing_failure:
  assumes "findClosestEdgePoint toLocalPoint object pointer = Some (resultPoint, resultEdge)"
    and "isDrawing g" and "startPoint g = Some sp"
    and "findPathBetweenPoints object sp resultPoint = Some localPathPoints"
    and "length localPathPoints < 2"
  shows "handleMouseDown toLocalPoint anchor (g, object) pointer
           = Some (g\<lparr>isDrawing := False, startPoint := None\<rparr>, object)"
  using assms by (simp add: handleMouseDown_def)

text \<open>
  The theorem on the square: the start point \<open>(50, 50)\<close> is accepted by no edge, the
  second click at \<open>(50, 3)\<close> snaps to edge 0, routing returns the empty path, and the
  gesture is reset with the square unchanged.
\<close>

theorem handleMouseDown_routing_failure_witness:
  "findClosestEdgePoint (\<lambda>p. p) square (Point (Fin 50) (Fin 3))
     = Some (Point (Fin 50) (Fin 0), 0)
   \<and> isDrawing awaiting_second
   \<and> startPoint awaiting_second = Some (Point (Fin 50) (Fin 50))
   \<and> findPathBetweenPoints square (Point (Fin 50) (Fin 50)) (Point (Fin 50) (Fin 0)) = Some []
   \<and> handleMouseDown (\<lambda>p. p) example_anchor (awaiting_second, square) (Point (Fin 50) (Fin 3))
     = Some (awaiting_second\<lparr>isDrawing := False, startPoint := None\<rparr>, square)"
proof -
  have a: "findClosestEdgePoint (\<lambda>p. p) square (Point (Fin 50) (Fin 3))
      = Some (Point (Fin 50) (Fin 0), 0)"
    by (simp add: square_eval findClosestEdgePoint_def)
  have b: "isDrawing awaiting_second"
      "startPoint awaiting_second = Some (Point (Fin 50) (Fin 50))"
    by (simp_all add: awaiting_second_def)
  have c: "findPathBetweenPoints square (Point (Fin 50) (Fin 50)) (Point (Fin 50) (Fin 0))
      = Some []"
    by (simp add: square_eval path_eval)
  have d: "length ([]::point list) < 2" by simp
  from handleMouseDown_routing_failure[OF a b c d, of example_anchor] a b c
  show ?thesis by blast
qed

section \<open>Closed cycles of edges\<close>

lemma index_pos_length: "i < length xs \<Longrightarrow> 0 < length xs"
  by (cases xs) auto

lemma rotate_nth_zero: "i < length cyc \<Longrightarrow> rotate i cyc ! 0 = cyc ! i"
  using nth_rotate[of 0 cyc i] index_pos_length[of i cyc] by simp

lemma rotate_nth_succ:
  "0 < length cyc \<Longrightarrow>
     rotate m cyc ! ((k + 1) mod length cyc) = cyc ! (((m + k) mod length cyc + 1) mod length cyc)"
  by (metis add.assoc mod_add_left_eq mod_add_right_eq mod_less_divisor nth_rotate)

lemma mod_shift_neq: "i < (n::nat) \<Longrightarrow> 0 < k \<Longrightarrow> k < n \<Longrightarrow> (i + k) mod n \<noteq> i"
  by (metis add_diff_cancel_left' le_add_same_cancel1 less_imp_le_nat mod_eq_dvd_iff_nat mod_if
      nat_dvd_not_less)

lemma mod_succ_shift: "0 < (n::nat) \<Longrightarrow> ((i + 1) mod n + k) mod n = (i + Suc k) mod n"
  by presburger

lemma cycle_along_cong:
  assumes "\<forall>r\<in>set cyc. nextEdge (h' r) = nextEdge (h r) \<and> prevEdge (h' r) = prevEdge (h r)"
  shows "cycle_along h' cyc = cycle_along h cyc"
proof -
  have "\<And>k. k < length cyc \<Longrightarrow> cyc ! k \<in> set cyc \<and> cyc ! ((k + 1) mod length cyc) \<in> set cyc"
    by (metis nth_mem mod_less_divisor length_greater_0_conv list.size(3) not_less_zero)
  with assms show ?thesis unfolding cycle_along_def by (metis (no_types, lifting))
qed

lemma cycle_along_rotate:
  assumes "cycle_along h cyc"
  shows "cycle_along h (rotate m cyc)"
proof -
  let ?n = "length cyc"
  from assms have ne: "cyc \<noteq> []" and d: "distinct cyc"
    and l: "\<And>k. k < ?n \<Longrightarrow> nextEdge (h (cyc ! k)) = Some (cyc ! ((k + 1) mod ?n))
          \<and> prevEdge (h (cyc ! ((k + 1) mod ?n))) = Some (cyc ! k)"
    by (auto simp: cycle_along_def)
  have npos: "0 < ?n" using ne by simp
  have "\<And>k. k < ?n \<Longrightarrow>
      nextEdge (h (rotate m cyc ! k)) = Some (rotate m cyc ! ((k + 1) mod ?n))
      \<and> prevEdge (h (rotate m cyc ! ((k + 1) mod ?n))) = Some (rotate m cyc ! k)"
  proof -
    fix k assume k: "k < ?n"
    have a: "rotate m cyc ! k = cyc ! ((m + k) mod ?n)"
      using k by (rule nth_rotate)
    have b: "rotate m cyc ! ((k + 1) mod ?n) = cyc ! (((m + k) mod ?n + 1) mod ?n)"
      using npos by (rule rotate_nth_succ)
    have "(m + k) mod ?n < ?n" using npos by simp
    from l[OF this] show "nextEdge (h (rotate m cyc ! k)) = Some (rotate m cyc ! ((k + 1) mod ?n))
      \<and> prevEdge (h (rotate m cyc ! ((k + 1) mod ?n))) = Some (rotate m cyc ! k)"
      unfolding a b .
  qed
  with ne d show ?thesis by (simp add: cycle_along_def)
qed

lemma cycle_along_head:
  assumes "cycle_along h cyc" and "e \<in> set cyc"
  shows "\<exists>rest. cycle_along h (e # rest) \<and> set (e # rest) = set cyc
           \<and> length (e # rest) = length cyc"
proof -
  from assms(2) obtain i where i: "i < length cyc" "cyc ! i = e"
    by (auto simp: in_set_conv_nth)
  let ?r = "rotate i cyc"
  have "?r \<noteq> []" using i by auto
  moreover have "?r ! 0 = e" using i by (simp add: rotate_nth_zero)
  ultimately obtain rest where r: "?r = e # rest" by (cases ?r) auto
  from cycle_along_rotate[OF assms(1), of i] r
  have "cycle_along h (e # rest)" by simp
  moreover have "set (e # rest) = set cyc" "length (e # rest) = length cyc"
    using r by (metis set_rotate, metis length_rotate)
  ultimately show ?thesis by blast
qed

lemma follow_cycle:
  assumes "cycle_along h cyc"
  shows "i < length cyc \<Longrightarrow> follow h k (cyc ! i) = Some (cyc ! ((i + k) mod length cyc))"
proof (induction k arbitrary: i)
  case 0
  then show ?case by simp
next
  case (Suc k)
  let ?n = "length cyc"
  from assms Suc.prems have nx: "nextEdge (h (cyc ! i)) = Some (cyc ! ((i + 1) mod ?n))"
    by (simp add: cycle_along_def)
  have npos: "0 < ?n" using Suc.prems by (rule index_pos_length)
  then have lt: "(i + 1) mod ?n < ?n" by (rule mod_less_divisor)
  from Suc.IH[OF lt] nx show ?case
    by (simp only: follow.simps option.case mod_succ_shift[OF npos])
qed

lemma cycle_along_props:
  assumes c: "cycle_along h cyc" and e: "e \<in> set cyc"
  shows "follow h (length cyc) e = Some e"
    and "\<And>k. 0 < k \<Longrightarrow> k < length cyc \<Longrightarrow> follow h k e \<noteq> Some e"
    and "\<exists>e'. e' \<in> set cyc \<and> nextEdge (h e) = Some e' \<and> prevEdge (h e') = Some e"
proof -
  let ?n = "length cyc"
  from e obtain i where i: "i < ?n" "cyc ! i = e" by (auto simp: in_set_conv_nth)
  from c have d: "distinct cyc" by (simp add: cycle_along_def)
  from follow_cycle[OF c i(1), of ?n] i show "follow h ?n e = Some e" by simp
  show "follow h k e \<noteq> Some e" if k: "0 < k" "k < ?n" for k
  proof
    assume "follow h k e = Some e"
    with follow_cycle[OF c i(1), of k] i have eq: "cyc ! ((i + k) mod ?n) = cyc ! i" by simp
    have "0 < ?n" using i(1) by (rule index_pos_length)
    then have "(i + k) mod ?n < ?n" by (rule mod_less_divisor)
    with eq d i(1) have "(i + k) mod ?n = i" by (simp only: nth_eq_iff_index_eq)
    with mod_shift_neq[OF i(1) k] show False by simp
  qed
  from c i have "nextEdge (h e) = Some (cyc ! ((i + 1) mod ?n))
      \<and> prevEdge (h (cyc ! ((i + 1) mod ?n))) = Some e"
    by (auto simp: cycle_along_def)
  moreover have "(i + 1) mod ?n < ?n" using i(1) by (intro mod_less_divisor index_pos_length)
  then have "cyc ! ((i + 1) mod ?n) \<in> set cyc" by (rule nth_mem)
  ultimately show "\<exists>e'. e' \<in> set cyc \<and> nextEdge (h e) = Some e' \<and> prevEdge (h e') = Some e"
    by blast
qed

section \<open>Inserting a vertex on an edge\<close>

lemma link_new_edges_single:
  assumes "prevEdge (eh edge) = Some edge" and "nextEdge (eh edge) = Some edge"
    and "edge \<noteq> n1" and "edge \<noteq> n2" and "n1 \<noteq> n2"
  shows "nextEdge (link_new_edges eh edge n1 n2 n1) = Some n2"
    and "prevEdge (link_new_edges eh edge n1 n2 n1) = Some n2"
    and "nextEdge (link_new_edges eh edge n1 n2 n2) = Some n1"
    and "prevEdge (link_new_edges eh edge n1 n2 n2) = Some n1"
  using assms by (simp_all add: link_new_edges_def Let_def)

lemma link_new_edges_next:
  assumes "prevEdge (eh edge) = Some pe" and "nextEdge (eh edge) = Some nx"
    and "pe \<noteq> edge" and "nx \<noteq> edge"
    and "edge \<noteq> n1" and "edge \<noteq> n2" and "n1 \<noteq> n2"
    and "pe \<noteq> n1" and "pe \<noteq> n2" and "nx \<noteq> n1" and "nx \<noteq> n2"
  shows "nextEdge (link_new_edges eh edge n1 n2 x) =
           (if x = n2 then Some nx else if x = n1 then Some n2
            else if x = pe then Some n1 else nextEdge (eh x))"
  using assms by (simp add: link_new_edges_def Let_def)

lemma link_new_edges_prev:
  assumes "prevEdge (eh edge) = Some pe" and "nextEdge (eh edge) = Some nx"
    and "pe \<noteq> edge" and "nx \<noteq> edge"
    and "edge \<noteq> n1" and "edge \<noteq> n2" and "n1 \<noteq> n2"
    and "pe \<noteq> n1" and "pe \<noteq> n2" and "nx \<noteq> n1" and "nx \<noteq> n2"
  shows "prevEdge (link_new_edges eh edge n1 n2 x) =
           (if x = n2 then Some n1 else if x = nx then Some n2
            else if x = n1 then Some pe else prevEdge (eh x))"
  using assms by (simp add: link_new_edges_def Let_def)

lemma link_new_edges_cycle:
  assumes c: "cycle_along eh (edge # rest)"
    and n1: "n1 \<notin> set (edge # rest)" and n2: "n2 \<notin> set (edge # rest)" and ne: "n1 \<noteq> n2"
  shows "cycle_along (link_new_edges eh edge n1 n2) (n1 # n2 # rest)"
proof (cases rest)
  case Nil
  from c Nil have "nextEdge (eh edge) = Some edge" "prevEdge (eh edge) = Some edge"
    by (simp_all add: cycle_along_def)
  from link_new_edges_single[of eh edge n1 n2, OF this(2,1)] n1 n2 ne Nil show ?thesis
    by (simp add: cycle_along_def All_less_Suc)
next
  case (Cons r rs)
  let ?cyc = "edge # r # rs"
  let ?cyc' = "n1 # n2 # r # rs"
  let ?n = "length ?cyc"
  let ?L = "link_new_edges eh edge n1 n2"
  let ?pe = "?cyc ! (?n - 1)"
  from c Cons have d: "distinct ?cyc"
    and H: "\<And>k. k < ?n \<Longrightarrow> nextEdge (eh (?cyc ! k)) = Some (?cyc ! ((k + 1) mod ?n))
              \<and> prevEdge (eh (?cyc ! ((k + 1) mod ?n))) = Some (?cyc ! k)"
    by (simp_all add: cycle_along_def)
  have nth_in: "\<And>k. k < ?n \<Longrightarrow> ?cyc ! k \<in> set ?cyc" by (rule nth_mem)
  have idx: "\<And>a b. a < ?n \<Longrightarrow> b < ?n \<Longrightarrow> ?cyc ! a = ?cyc ! b \<longleftrightarrow> a = b"
    using d by (rule nth_eq_iff_index_eq)
  from H[of 0] have nx: "nextEdge (eh edge) = Some r" "prevEdge (eh r) = Some edge" by simp_all
  from H[of "?n - 1"] have pe: "nextEdge (eh ?pe) = Some edge" "prevEdge (eh edge) = Some ?pe"
    by simp_all
  have pe_in: "?pe \<in> set ?cyc" by (rule nth_in) simp
  have pe_ne: "?pe \<noteq> edge" using idx[of "?n - 1" 0] by simp
  have r_ne: "r \<noteq> edge" using d by auto
  have fresh: "edge \<noteq> n1" "edge \<noteq> n2" "?pe \<noteq> n1" "?pe \<noteq> n2" "r \<noteq> n1" "r \<noteq> n2"
    using n1 n2 pe_in Cons by auto
  note nextL = link_new_edges_next[of eh edge ?pe r n1 n2,
      OF pe(2) nx(1) pe_ne r_ne fresh(1,2) ne fresh(3-6)]
  note prevL = link_new_edges_prev[of eh edge ?pe r n1 n2,
      OF pe(2) nx(1) pe_ne r_ne fresh(1,2) ne fresh(3-6)]
  have d': "distinct ?cyc'" using d n1 n2 ne Cons by auto
  have G: "nextEdge (?L (?cyc' ! k)) = Some (?cyc' ! ((k + 1) mod length ?cyc'))
      \<and> prevEdge (?L (?cyc' ! ((k + 1) mod length ?cyc'))) = Some (?cyc' ! k)"
    if k: "k < length ?cyc'" for k
  proof -
    consider "k = 0" | "k = 1" | j where "k = Suc (Suc j)" "Suc (Suc j) < ?n"
      | j where "k = Suc (Suc j)" "Suc (Suc j) = ?n"
      using k by (cases k; simp) (metis Suc_lessI less_Suc_eq_0_disj less_antisym not_less_eq One_nat_def)
    then show ?thesis
    proof cases
      case 1
      then show ?thesis using ne fresh by (simp add: nextL prevL)
    next
      case 2
      then show ?thesis using ne fresh by (simp add: nextL prevL)
    next
      case 3
      let ?m = "Suc j"
      have m: "?m < ?n" "Suc ?m < ?n" using 3 by simp_all
      have a: "?cyc' ! k = ?cyc ! ?m" using 3 by simp
      have b: "?cyc' ! ((k + 1) mod length ?cyc') = ?cyc ! Suc ?m" using 3 by simp
      have x1: "?cyc ! ?m \<noteq> ?pe" using idx[of ?m "?n - 1"] m by simp
      have x2: "?cyc ! ?m \<noteq> n1" "?cyc ! ?m \<noteq> n2" using nth_in[OF m(1)] n1 n2 Cons by auto
      have y1: "?cyc ! Suc ?m \<noteq> r" using idx[of "Suc ?m" 1] m by simp
      have y2: "?cyc ! Suc ?m \<noteq> n1" "?cyc ! Suc ?m \<noteq> n2"
        using nth_in[OF m(2)] n1 n2 Cons by auto
      from H[OF m(1)] m have h: "nextEdge (eh (?cyc ! ?m)) = Some (?cyc ! Suc ?m)"
          "prevEdge (eh (?cyc ! Suc ?m)) = Some (?cyc ! ?m)" by simp_all
      show ?thesis unfolding a b using x1 x2 y1 y2 h by (simp only: nextL prevL if_False)
    next
      case 4
      have a: "?cyc' ! k = ?pe" using 4 by simp
      have b: "?cyc' ! ((k + 1) mod length ?cyc') = n1" using 4 by simp
      show ?thesis unfolding a b using fresh ne by (simp add: nextL prevL)
    qed
  qed
  show ?thesis unfolding Cons cycle_along_def using d' G by blast
qed

lemma addVertexOnEdge_fields:
  "vertices (addVertexOnEdge anchor this edge pnt)
     = js_splice (vertices this) (js_indexOf (vertices this) (target (eheap this edge))) 0
         [fresh this]"
  "edges (addVertexOnEdge anchor this edge pnt)
     = js_splice (edges this) (js_indexOf (edges this) edge) 1 [fresh this + 1, fresh this + 2]"
  "doors (addVertexOnEdge anchor this edge pnt) = doors this"
  "fresh (addVertexOnEdge anchor this edge pnt) = fresh this + 3"
  by (simp_all add: addVertexOnEdge_def Let_def updateObjects_fields
      initializeCoordinateSystem_fields)

lemma addVertexOnEdge_objects:
  "objects (addVertexOnEdge anchor this edge pnt)
     = map VertexObj (vertices (addVertexOnEdge anchor this edge pnt))
       @ map EdgeObj (edges (addVertexOnEdge anchor this edge pnt))
       @ map DoorObj (doors (addVertexOnEdge anchor this edge pnt))"
  by (simp add: addVertexOnEdge_def Let_def updateObjects_fields
      initializeCoordinateSystem_fields)

lemma addVertexOnEdge_links:
  "\<exists>eh2. (\<forall>r. r \<noteq> fresh this + 1 \<and> r \<noteq> fresh this + 2 \<longrightarrow> eh2 r = eheap this r)
     \<and> (\<forall>r. nextEdge (eheap (addVertexOnEdge anchor this edge pnt) r)
               = nextEdge (link_new_edges eh2 edge (fresh this + 1) (fresh this + 2) r)
            \<and> prevEdge (eheap (addVertexOnEdge anchor this edge pnt) r)
               = prevEdge (link_new_edges eh2 edge (fresh this + 1) (fresh this + 2) r))"
proof -
  let ?vh1 = "(vheap this)(fresh this :=
                  new_PolygonVertex (pt_x pnt - Fin 6) (pt_y pnt - Fin 6))"
  let ?eh1 = "(eheap this)(fresh this + 1 :=
                  new_PolygonEdge anchor ?vh1 (source (eheap this edge)) (fresh this)
                    (stroke (eheap this edge)) (strokeWidth (eheap this edge)))"
  let ?eh2 = "?eh1(fresh this + 2 :=
                  new_PolygonEdge anchor ?vh1 (fresh this) (target (eheap this edge))
                    (stroke (?eh1 edge)) (strokeWidth (?eh1 edge)))"
  have "\<forall>r. r \<noteq> fresh this + 1 \<and> r \<noteq> fresh this + 2 \<longrightarrow> ?eh2 r = eheap this r" by simp
  moreover have "\<forall>r. nextEdge (eheap (addVertexOnEdge anchor this edge pnt) r)
               = nextEdge (link_new_edges ?eh2 edge (fresh this + 1) (fresh this + 2) r)
            \<and> prevEdge (eheap (addVertexOnEdge anchor this edge pnt) r)
               = prevEdge (link_new_edges ?eh2 edge (fresh this + 1) (fresh this + 2) r)"
    by (simp add: addVertexOnEdge_def Let_def updateObjects_links
        initializeCoordinateSystem_links)
  ultimately show ?thesis by blast
qed

lemma distinct_same_set:
  assumes "distinct cyc" and "set cyc = set es" and "length cyc = length es"
  shows "distinct es"
  using assms by (metis card_distinct distinct_card)

lemma set_remove_nth:
  assumes "distinct es" and "j < length es"
  shows "set (take j es @ drop (Suc j) es) = set es - {es ! j}"
proof -
  have "es = take j es @ es ! j # drop (Suc j) es" using assms(2) by (rule id_take_nth_drop)
  then have "distinct (take j es @ es ! j # drop (Suc j) es)"
      "set es = set (take j es @ es ! j # drop (Suc j) es)" using assms(1) by simp_all
  then show ?thesis by auto
qed

text \<open>
  C1. For a polygon whose edges form one closed cycle (listed in boundary order by
  \<open>cyc\<close>) and which has as many vertices as edges, a call of \<open>addVertexOnEdge\<close> on one of
  its edges adds exactly one vertex and exactly one edge, the two counts are equal
  again, and the edges form one closed cycle again: from every edge, following
  \<open>nextEdge\<close> comes back to it after exactly as many steps as there are edges and not
  before, and \<open>edge.nextEdge.prevEdge\<close> is the edge itself. The hypothesis on \<open>fresh\<close>
  says that \<^verbatim>\<open>new\<close> returns objects that are not edges of the polygon already.
\<close>

theorem addVertexOnEdge_keeps_cycle:
  fixes anchor :: "vertex_obj \<Rightarrow> point" and pnt :: point
  assumes cc: "closed_cycle this cyc"
    and len: "length (vertices this) = length (edges this)"
    and mem: "edge \<in> set (edges this)"
    and alloc: "\<forall>e\<in>set (edges this). e < fresh this"
  defines "this' \<equiv> addVertexOnEdge anchor this edge pnt"
  shows "length (vertices this') = length (vertices this) + 1
       \<and> length (edges this') = length (edges this) + 1
       \<and> length (vertices this') = length (edges this')
       \<and> (\<exists>cyc'. closed_cycle this' cyc')
       \<and> (\<forall>e\<in>set (edges this').
             follow (eheap this') (length (edges this')) e = Some e
             \<and> (\<forall>k. 0 < k \<and> k < length (edges this') \<longrightarrow> follow (eheap this') k e \<noteq> Some e)
             \<and> (\<exists>e'. e' \<in> set (edges this') \<and> nextEdge (eheap this' e) = Some e'
                      \<and> prevEdge (eheap this' e') = Some e))
       \<and> (\<forall>e\<in>set (edges this'). e < fresh this')"
proof -
  let ?n1 = "fresh this + 1" and ?n2 = "fresh this + 2"
  let ?es = "edges this"
  from cc have c: "cycle_along (eheap this) cyc" and s: "set cyc = set ?es"
    and l: "length cyc = length ?es" by (simp_all add: closed_cycle_def)
  from c have dc: "distinct cyc" by (simp add: cycle_along_def)
  have des: "distinct ?es" using dc s l by (rule distinct_same_set)
  \<comment> \<open>the two arrays\<close>
  have lv: "length (vertices this') = length (vertices this) + 1"
    by (simp add: this'_def addVertexOnEdge_fields length_js_splice_insert)
  from js_indexOf_in[OF mem] obtain j where
    j: "js_indexOf ?es edge = int j" "j < length ?es" "?es ! j = edge"
    by (metis int_nat_eq)
  have es': "edges this' = take j ?es @ [?n1, ?n2] @ drop (Suc j) ?es"
    using j by (simp add: this'_def addVertexOnEdge_fields js_splice_nth)
  have le: "length (edges this') = length ?es + 1" using j by (simp add: es')
  have se: "set (edges this') = (set ?es - {edge}) \<union> {?n1, ?n2}"
    using set_remove_nth[OF des j(2)] j(3) by (auto simp add: es')
  \<comment> \<open>the cycle, rotated so that it starts at the split edge\<close>
  from mem s have "edge \<in> set cyc" by simp
  from cycle_along_head[OF c this] obtain rest where
    r: "cycle_along (eheap this) (edge # rest)" "set (edge # rest) = set cyc"
       "length (edge # rest) = length cyc" by blast
  have n1: "?n1 \<notin> set (edge # rest)" and n2: "?n2 \<notin> set (edge # rest)"
    using alloc r(2) s by fastforce+
  from addVertexOnEdge_links[of this anchor edge pnt] obtain eh2 where
    eh2: "\<And>r. r \<noteq> ?n1 \<Longrightarrow> r \<noteq> ?n2 \<Longrightarrow> eh2 r = eheap this r"
    and links: "\<And>r. nextEdge (eheap this' r) = nextEdge (link_new_edges eh2 edge ?n1 ?n2 r)"
               "\<And>r. prevEdge (eheap this' r) = prevEdge (link_new_edges eh2 edge ?n1 ?n2 r)"
    unfolding this'_def by blast
  have "cycle_along eh2 (edge # rest)"
  proof -
    have "\<forall>x\<in>set (edge # rest). nextEdge (eh2 x) = nextEdge (eheap this x)
        \<and> prevEdge (eh2 x) = prevEdge (eheap this x)"
      using eh2 n1 n2 by metis
    from cycle_along_cong[OF this] r(1) show ?thesis by simp
  qed
  from link_new_edges_cycle[OF this n1 n2]
  have "cycle_along (link_new_edges eh2 edge ?n1 ?n2) (?n1 # ?n2 # rest)" by simp
  then have c': "cycle_along (eheap this') (?n1 # ?n2 # rest)"
    using cycle_along_cong[of "?n1 # ?n2 # rest" "eheap this'" "link_new_edges eh2 edge ?n1 ?n2"]
      links by simp
  from r(1) have "edge \<notin> set rest" by (simp add: cycle_along_def)
  with r(2) s have "set rest = set ?es - {edge}" by auto
  with se have s': "set (?n1 # ?n2 # rest) = set (edges this')" by auto
  have l': "length (?n1 # ?n2 # rest) = length (edges this')" using r(3) l le by simp
  have cc': "closed_cycle this' (?n1 # ?n2 # rest)"
    using c' s' l' by (simp add: closed_cycle_def)
  have props: "follow (eheap this') (length (edges this')) e = Some e
        \<and> (\<forall>k. 0 < k \<and> k < length (edges this') \<longrightarrow> follow (eheap this') k e \<noteq> Some e)
        \<and> (\<exists>e'. e' \<in> set (edges this') \<and> nextEdge (eheap this' e) = Some e'
                 \<and> prevEdge (eheap this' e') = Some e)"
    if "e \<in> set (edges this')" for e
  proof -
    from that s' have e: "e \<in> set (?n1 # ?n2 # rest)" by simp
    from cycle_along_props[OF c' e] show ?thesis unfolding l' s' by blast
  qed
  have al: "\<forall>e\<in>set (edges this'). e < fresh this'"
    using alloc se by (auto simp add: this'_def addVertexOnEdge_fields(4))
  from lv le len cc' props al show ?thesis by (intro conjI) (simp, simp, simp, blast, blast, blast)
qed

text \<open>
  The theorem on the square, split on edge 1: five vertices, the five edges
  \<open>0, 5, 6, 2, 3\<close>, and from the new edge 5 the links come back after 5 steps.
\<close>

theorem addVertexOnEdge_keeps_cycle_witness:
  "closed_cycle square [0, 1, 2, 3]
   \<and> length (vertices square) = length (edges square)
   \<and> 1 \<in> set (edges square)
   \<and> list_all (\<lambda>e. e < fresh square) (edges square)
   \<and> length (vertices split_square) = 5
   \<and> length (edges split_square) = 5
   \<and> edges split_square = [0, 5, 6, 2, 3]
   \<and> follow (eheap split_square) 5 5 = Some 5
   \<and> (\<exists>e'. nextEdge (eheap split_square 5) = Some e' \<and> prevEdge (eheap split_square e') = Some 5)"
proof -
  have "nextEdge (eheap square ([0, 1, 2, 3] ! k))
          = Some ([0, 1, 2, 3] ! ((k + 1) mod length [0, 1, 2, 3::nat]))
      \<and> prevEdge (eheap square ([0, 1, 2, 3] ! ((k + 1) mod length [0, 1, 2, 3::nat])))
          = Some ([0, 1, 2, 3] ! k)"
    if "k < length [0, 1, 2, 3::nat]" for k
  proof -
    from that have "k = 0 \<or> k = 1 \<or> k = 2 \<or> k = 3" by auto
    then show ?thesis
      by (elim disjE) (simp_all add: square_def example_edge_def)
  qed
  then have "cycle_along (eheap square) [0, 1, 2, 3]"
    unfolding cycle_along_def by simp
  then have h1: "closed_cycle square [0, 1, 2, 3]"
    by (simp add: closed_cycle_def square_def)
  have h2: "length (vertices square) = length (edges square)" by (simp add: square_def)
  have h3: "1 \<in> set (edges square)" by (simp add: square_def)
  have h4: "\<forall>e\<in>set (edges square). e < fresh square" by (simp add: square_def)
  have h4': "list_all (\<lambda>e. e < fresh square) (edges square)" by (simp add: square_def)
  have es: "edges split_square = [0, 5, 6, 2, 3]"
    by (simp add: split_square_def addVertexOnEdge_fields js_splice_def square_def Let_def)
  note t = addVertexOnEdge_keeps_cycle[OF h1 h2 h3 h4, of example_anchor "Point (Fin 100) (Fin 50)",
      folded split_square_def]
  from t have "length (vertices split_square) = length (vertices square) + 1" by blast
  then have lv: "length (vertices split_square) = 5" by (simp add: square_def)
  from t have "length (edges split_square) = length (edges square) + 1" by blast
  then have le: "length (edges split_square) = 5" by (simp add: square_def)
  have m: "5 \<in> set (edges split_square)" by (simp add: es)
  from t m have "follow (eheap split_square) (length (edges split_square)) 5 = Some 5
      \<and> (\<exists>e'. e' \<in> set (edges split_square) \<and> nextEdge (eheap split_square 5) = Some e'
               \<and> prevEdge (eheap split_square e') = Some 5)"
    by blast
  then have "follow (eheap split_square) 5 5 = Some 5"
    and "\<exists>e'. nextEdge (eheap split_square 5) = Some e' \<and> prevEdge (eheap split_square e') = Some 5"
    unfolding le by blast+
  with h1 h2 h3 h4' lv le es show ?thesis by blast
qed

end
